theory Spec2Isabelle
  imports Complex_Main "HOL-Library.Char_ord" "HOL-Library.List_Lexorder"
begin

section \<open>Tree nodes\<close>

text \<open>
  The notebook works on scikit-bio \<^verbatim>\<open>TreeNode\<close> objects: a node has a \<^verbatim>\<open>name\<close>
  (possibly \<^verbatim>\<open>None\<close>), a branch \<^verbatim>\<open>length\<close> (possibly \<^verbatim>\<open>None\<close>), an ordered list of
  \<^verbatim>\<open>children\<close> and a \<^verbatim>\<open>parent\<close> back reference.  A whole tree is a value of the
  datatype below; a node object of that tree is addressed by the list of child
  indices leading from the apex to it, so that object identity (\<^verbatim>\<open>is\<close>) of two
  nodes of one tree is equality of their paths, \<^verbatim>\<open>node.parent\<close> is the path
  without its last index and \<^verbatim>\<open>node.is_root()\<close> is the empty path.  Python's
  \<^verbatim>\<open>None\<close> is \<open>None\<close>.  Branch lengths are exact rationals.
\<close>

datatype tree = Node (name: "string option") (blen: "rat option") (children: "tree list")

type_synonym path = "nat list"

datatype error =
    NotNeighbors                    \<comment> \<open>ValueError: Source and node are not neighbors.\<close>
  | CannotWalkFromRootOfRootedTree  \<comment> \<open>ValueError: Cannot walk from root of an rooted tree.\<close>
  | SourceNotRooted                 \<comment> \<open>ValueError: Source tree must be rooted.\<close>
  | TargetNotUnrooted               \<comment> \<open>ValueError: Target tree must be unrooted.\<close>
  | TaxaMismatch                    \<comment> \<open>ValueError: Taxa in source and target trees do not match.\<close>
  | DuplicateLabel                  \<comment> \<open>ValueError: Duplicated node label ... found.\<close>
  | MissingLabel                    \<comment> \<open>ValueError: There are empty node label(s) in the source tree.\<close>
  | LabelNotFound                   \<comment> \<open>skbio MissingNodeError raised by \<^verbatim>\<open>find\<close>\<close>
  | ChildMismatch                   \<comment> \<open>KeyError raised by \<^verbatim>\<open>name2child[child.name]\<close>\<close>
  | DuplicateNodeError              \<comment> \<open>skbio DuplicateNodeError raised by \<^verbatim>\<open>create_caches\<close>\<close>
  | NoTipsFound                     \<comment> \<open>ValueError: No tips found. (skbio \<^verbatim>\<open>lca\<close>)\<close>
  | TreeError                       \<comment> \<open>skbio TreeError: Can't use a tip as the root\<close>
  | TypeError                       \<comment> \<open>arithmetic on a \<^verbatim>\<open>None\<close> length; subscripting a \<^verbatim>\<open>set\<close>\<close>
  | AttributeError                  \<comment> \<open>attribute access on \<^verbatim>\<open>None\<close>\<close>
  | AssertionError                  \<comment> \<open>a failed \<^verbatim>\<open>assert\<close> in skbio \<^verbatim>\<open>unrooted_copy\<close>\<close>

fun node_at :: "tree \<Rightarrow> path \<Rightarrow> tree option" where
  "node_at t [] = Some t"
| "node_at t (i # p) = (if i < length (children t) then node_at (children t ! i) p else None)"

definition parent_of :: "path \<Rightarrow> path option" where
  "parent_of p = (if p = [] then None else Some (butlast p))"

definition child_paths :: "path \<Rightarrow> tree \<Rightarrow> path list" where
  "child_paths p node = map (\<lambda>i. p @ [i]) [0..<length (children node)]"

text \<open>\<^verbatim>\<open>node.siblings()\<close>: the parent's children without the node itself, in order.\<close>

definition siblings :: "tree \<Rightarrow> path \<Rightarrow> path list" where
  "siblings t p =
     (if p = [] then []
      else case node_at t (butlast p) of
             None \<Rightarrow> []
           | Some par \<Rightarrow> filter (\<lambda>c. c \<noteq> p) (child_paths (butlast p) par))"

fun sequence_err :: "(error + 'a) list \<Rightarrow> error + 'a list" where
  "sequence_err [] = Inr []"
| "sequence_err (x # xs) =
     (case x of
        Inl e \<Rightarrow> Inl e
      | Inr v \<Rightarrow> (case sequence_err xs of Inl e \<Rightarrow> Inl e | Inr vs \<Rightarrow> Inr (v # vs)))"

fun sz :: "tree \<Rightarrow> nat" where
  "sz (Node n l cs) = Suc (sum_list (map sz cs))"

section \<open>Directional copy: \<^verbatim>\<open>walk_copy\<close>\<close>

text \<open>
  \<open>walk_copy t p src\<close> is \<^verbatim>\<open>walk_copy(node, src)\<close> for the node at path \<open>p\<close> of the tree
  \<open>t\<close>; \<open>src\<close> is a node of the same tree, or \<^verbatim>\<open>None\<close>.  The position of the node, the
  rootedness, the move and the new length are computed as in the source, in its order:
  the rooted apex is refused first, then a source that is no neighbour, then the length
  is taken (adding a missing length raises), then the children other than \<open>src\<close> are
  copied, then the parent when walking up, then the sibling when walking across the apex
  of a rooted tree.  A path that addresses no node is no argument of the source's
  function; the model answers it like an attribute access on \<^verbatim>\<open>None\<close>.
\<close>

datatype position = Root | Basal | Derived

datatype move = Down | Up | Top | Bottom | NA

definition position_of :: "path \<Rightarrow> position" where
  "position_of p = (if p = [] then Root else if butlast p = [] then Basal else Derived)"

text \<open>
  \<^verbatim>\<open>rooted\<close>: \<open>None\<close> for a derived node, otherwise whether the apex has exactly two
  children.
\<close>

definition rooted_of :: "tree \<Rightarrow> path \<Rightarrow> bool option" where
  "rooted_of t p =
     (case position_of p of
        Root \<Rightarrow> Some (length (children t) = 2)
      | Basal \<Rightarrow> Some (length (children t) = 2)
      | Derived \<Rightarrow> None)"

definition move_of :: "tree \<Rightarrow> path \<Rightarrow> tree \<Rightarrow> path option \<Rightarrow> move" where
  "move_of t p node src =
     (if rooted_of t p = Some True \<and> position_of p = Basal
      then (if src = Some (hd (siblings t p)) then Bottom
            else if src \<in> Some ` set (child_paths p node) then Top
            else NA)
      else (if src = parent_of p then Down
            else if src \<in> Some ` set (child_paths p node) then Up
            else NA))"

text \<open>The length of the new node; \<^verbatim>\<open>src.length + node.length\<close> raises on \<^verbatim>\<open>None\<close>.\<close>

definition length_of_src :: "tree \<Rightarrow> path option \<Rightarrow> rat option" where
  "length_of_src t src =
     (case src of None \<Rightarrow> None
      | Some s \<Rightarrow> (case node_at t s of None \<Rightarrow> None | Some n \<Rightarrow> blen n))"

definition new_length :: "tree \<Rightarrow> tree \<Rightarrow> path option \<Rightarrow> move \<Rightarrow> error + rat option" where
  "new_length t node src m =
     (if m = Down then Inr (blen node)
      else if m = Bottom then
        (case (length_of_src t src, blen node) of
           (Some a, Some b) \<Rightarrow> Inr (Some (a + b))
         | _ \<Rightarrow> Inl TypeError)
      else Inr (length_of_src t src))"

function walk_copy :: "tree \<Rightarrow> path \<Rightarrow> path option \<Rightarrow> error + tree" where
  "walk_copy t p src =
     (case node_at t p of
        None \<Rightarrow> Inl AttributeError
      | Some node \<Rightarrow>
          if rooted_of t p = Some True \<and> position_of p = Root
          then Inl CannotWalkFromRootOfRootedTree
          else if move_of t p node src = NA then Inl NotNeighbors
          else
            (case new_length t node src (move_of t p node src) of
               Inl e \<Rightarrow> Inl e
             | Inr len \<Rightarrow>
                (case sequence_err (map (\<lambda>c. walk_copy t c (Some p))
                                        (filter (\<lambda>c. Some c \<noteq> src) (child_paths p node))) of
                   Inl e \<Rightarrow> Inl e
                 | Inr kids \<Rightarrow>
                    (case (if move_of t p node src = Up \<and> position_of p \<noteq> Root
                           then sequence_err [walk_copy t (butlast p) (Some p)]
                           else Inr []) of
                       Inl e \<Rightarrow> Inl e
                     | Inr ups \<Rightarrow>
                        (case (if move_of t p node src = Top
                               then sequence_err [walk_copy t (hd (siblings t p)) (Some p)]
                               else Inr []) of
                           Inl e \<Rightarrow> Inl e
                         | Inr tops \<Rightarrow> Inr (Node (name node) len (kids @ ups @ tops)))))))"
  by pat_completeness auto

text \<open>
  Termination: every recursive call copies a strictly smaller part of the tree, the part
  on the far side of the edge between \<open>src\<close> and the node.
\<close>

definition walk_measure :: "tree \<times> path \<times> path option \<Rightarrow> nat" where
  "walk_measure a =
     (case a of (t, p, src) \<Rightarrow>
        (case node_at t p of
           None \<Rightarrow> 0
         | Some node \<Rightarrow>
            (case src of
               None \<Rightarrow> sz node
             | Some s \<Rightarrow>
                 if s \<in> set (child_paths p node)
                 then (case node_at t s of None \<Rightarrow> 0 | Some c \<Rightarrow> sz t - sz c)
                 else sz node)))"

lemma node_at_append:
  "node_at t (p @ q) = (case node_at t p of None \<Rightarrow> None | Some n \<Rightarrow> node_at n q)"
  by (induction p arbitrary: t) auto

lemma node_at_snoc:
  "node_at t (p @ [i]) =
     (case node_at t p of None \<Rightarrow> None
      | Some n \<Rightarrow> if i < length (children n) then Some (children n ! i) else None)"
  by (simp add: node_at_append split: option.splits)

lemma sz_pos: "0 < sz n"
  by (cases n) simp

lemma sz_child: "i < length (children n) \<Longrightarrow> sz (children n ! i) < sz n"
proof (cases n)
  case (Node a b cs)
  assume "i < length (children n)"
  then have "children n ! i \<in> set cs" using Node by simp
  then have "sz (children n ! i) \<le> sum_list (map sz cs)"
    by (simp add: member_le_sum_list)
  then show ?thesis using Node by simp
qed

lemma sum_list_two:
  "i < length (xs::nat list) \<Longrightarrow> j < length xs \<Longrightarrow> i \<noteq> j \<Longrightarrow> xs ! i + xs ! j \<le> sum_list xs"
proof (induction xs arbitrary: i j)
  case Nil then show ?case by simp
next
  case (Cons x xs)
  show ?case
  proof (cases i)
    case 0
    then obtain j' where j: "j = Suc j'" using Cons.prems by (cases j) auto
    then have "xs ! j' \<le> sum_list xs" using Cons.prems by (simp add: member_le_sum_list)
    then show ?thesis using 0 j by simp
  next
    case (Suc i')
    show ?thesis
    proof (cases j)
      case 0
      have "xs ! i' \<le> sum_list xs" using Cons.prems Suc by (simp add: member_le_sum_list)
      then show ?thesis using 0 Suc by simp
    next
      case (Suc j')
      then show ?thesis using Cons.IH[of i' j'] Cons.prems \<open>i = Suc i'\<close> by simp
    qed
  qed
qed

lemma sz_two_children:
  "i < length (children n) \<Longrightarrow> j < length (children n) \<Longrightarrow> i \<noteq> j \<Longrightarrow>
   sz (children n ! i) + sz (children n ! j) < sz n"
proof (cases n)
  case (Node a b cs)
  assume a: "i < length (children n)" "j < length (children n)" "i \<noteq> j"
  then have "map sz cs ! i + map sz cs ! j \<le> sum_list (map sz cs)"
    using Node by (intro sum_list_two) auto
  then show ?thesis using Node a by simp
qed

lemma sz_node_at: "node_at t p = Some n \<Longrightarrow> sz n \<le> sz t"
proof (induction p arbitrary: t)
  case Nil then show ?case by simp
next
  case (Cons i p)
  then have i: "i < length (children t)" and n: "node_at (children t ! i) p = Some n"
    by (auto split: if_splits)
  from Cons.IH[OF n] sz_child[OF i] show ?case by simp
qed

lemma in_child_paths: "s \<in> set (child_paths p n) \<longleftrightarrow> (\<exists>i < length (children n). s = p @ [i])"
  by (auto simp: child_paths_def)

lemma walk_term_child:
  assumes "node_at t p = Some n" "x \<in> set (filter (\<lambda>c. Some c \<noteq> src) (child_paths p n))"
  shows "walk_measure (t, x, Some p) < walk_measure (t, p, src)"
proof -
  from assms(2) obtain i where i: "i < length (children n)" "x = p @ [i]" "Some x \<noteq> src"
    by (auto simp: in_child_paths)
  have x: "node_at t x = Some (children n ! i)" using assms(1) i by (simp add: node_at_snoc)
  have np: "p \<notin> set (child_paths x (children n ! i))" using i by (auto simp: in_child_paths)
  have lhs: "walk_measure (t, x, Some p) = sz (children n ! i)"
    using x np by (simp add: walk_measure_def)
  show ?thesis
  proof (cases "\<exists>s. src = Some s \<and> s \<in> set (child_paths p n)")
    case True
    then obtain s j where s: "src = Some s" "j < length (children n)" "s = p @ [j]"
      by (auto simp: in_child_paths)
    then have ij: "i \<noteq> j" using i by auto
    have sj: "node_at t s = Some (children n ! j)" using assms(1) s by (simp add: node_at_snoc)
    have "walk_measure (t, p, src) = sz t - sz (children n ! j)"
      using assms(1) s sj True by (simp add: walk_measure_def)
    moreover have "sz (children n ! i) + sz (children n ! j) < sz n"
      using sz_two_children[OF i(1) s(2) ij] .
    moreover have "sz n \<le> sz t" using sz_node_at[OF assms(1)] .
    ultimately show ?thesis using lhs by linarith
  next
    case False
    then have "walk_measure (t, p, src) = sz n"
      using assms(1) by (auto simp: walk_measure_def split: option.splits)
    then show ?thesis using lhs sz_child[OF i(1)] by simp
  qed
qed

lemma walk_term_up:
  assumes "node_at t p = Some n" "src \<in> Some ` set (child_paths p n)" "p \<noteq> []"
  shows "walk_measure (t, butlast p, Some p) < walk_measure (t, p, src)"
proof -
  from assms(2) obtain s j where s: "src = Some s" "j < length (children n)" "s = p @ [j]"
    by (auto simp: in_child_paths)
  have sj: "node_at t s = Some (children n ! j)" using assms(1) s by (simp add: node_at_snoc)
  have rhs: "walk_measure (t, p, src) = sz t - sz (children n ! j)"
    using assms(1,2) s sj by (auto simp: walk_measure_def)
  have p: "p = butlast p @ [last p]" using assms(3) by simp
  obtain par where par: "node_at t (butlast p) = Some par" "last p < length (children par)"
      "children par ! last p = n"
    using assms(1) p node_at_snoc[of t "butlast p" "last p"]
    by (auto split: option.splits if_splits)
  have "p \<in> set (child_paths (butlast p) par)"
    using par p by (auto simp: in_child_paths)
  then have lhs: "walk_measure (t, butlast p, Some p) = sz t - sz n"
    using par assms(1) by (simp add: walk_measure_def)
  have "sz (children n ! j) < sz n" using sz_child[OF s(2)] .
  moreover have "sz n \<le> sz t" using sz_node_at[OF assms(1)] .
  ultimately show ?thesis using lhs rhs by linarith
qed

lemma rooted_basal:
  assumes "rooted_of t p = Some True" "position_of p = Basal" "node_at t p = Some n"
  shows "\<exists>i < 2. p = [i] \<and> length (children t) = 2 \<and> children t ! i = n
           \<and> hd (siblings t p) = [1 - i]"
proof -
  from assms(2) obtain i where p: "p = [i]"
    by (cases p) (auto simp: position_of_def split: if_splits)
  from assms(1) p have two: "length (children t) = 2"
    by (simp add: rooted_of_def position_of_def)
  from assms(3) p two have i: "i < 2" "children t ! i = n" by (auto split: if_splits)
  have "[0..<2] = [0, Suc 0]" by (simp add: upt_rec)
  then have "siblings t [i] = [[1 - i]]"
    using i two by (cases "i = 0") (auto simp: siblings_def child_paths_def)
  then show ?thesis using p two i by auto
qed

lemma walk_term_top:
  assumes "node_at t p = Some n" "move_of t p n src = Top"
  shows "walk_measure (t, hd (siblings t p), Some p) < walk_measure (t, p, src)"
proof -
  from assms(2) have rb: "rooted_of t p = Some True" "position_of p = Basal"
    and src: "src \<in> Some ` set (child_paths p n)"
    by (auto simp: move_of_def split: if_splits)
  from rooted_basal[OF rb assms(1)] obtain i where i: "i < 2" "p = [i]"
    "length (children t) = 2" "children t ! i = n" "hd (siblings t p) = [1 - i]" by auto
  from src obtain s j where s: "src = Some s" "j < length (children n)" "s = p @ [j]"
    by (auto simp: in_child_paths)
  have sj: "node_at t s = Some (children n ! j)" using assms(1) s by (simp add: node_at_snoc)
  have rhs: "walk_measure (t, p, src) = sz t - sz (children n ! j)"
    using assms(1) src s sj by (auto simp: walk_measure_def)
  have sib: "node_at t [1 - i] = Some (children t ! (1 - i))" using i by auto
  have "p \<notin> set (child_paths [1 - i] (children t ! (1 - i)))"
    using i by (auto simp: in_child_paths)
  then have lhs: "walk_measure (t, hd (siblings t p), Some p) = sz (children t ! (1 - i))"
    using sib i by (simp add: walk_measure_def)
  have ne: "1 - i \<noteq> i" using i(1) by arith
  have "sz (children t ! (1 - i)) + sz (children t ! i) < sz t"
    using i ne by (intro sz_two_children) auto
  then have a: "sz (children t ! (1 - i)) + sz n < sz t" using i(4) by simp
  have b: "sz (children n ! j) < sz n" using sz_child[OF s(2)] .
  show ?thesis unfolding lhs rhs using a b by linarith
qed

termination walk_copy
proof (relation "measure walk_measure", goal_cases)
  case 1
  show ?case by simp
next
  case (2 t p src n len x)
  then show ?case using walk_term_child by simp
next
  case (3 t p src n len kids)
  then have "src \<in> Some ` set (child_paths p n)" "p \<noteq> []"
    by (auto simp: move_of_def position_of_def split: if_splits)
  with 3 show ?case using walk_term_up by simp
next
  case (4 t p src n len kids ups)
  then show ?case using walk_term_top by simp
qed

declare walk_copy.simps [simp del]

section \<open>Midpoint rerooting: \<^verbatim>\<open>root_above\<close>\<close>

text \<open>
  \<^verbatim>\<open>left = walk_copy(node, node.parent)\<close>, \<^verbatim>\<open>right = walk_copy(node.parent, node)\<close>
  (attribute access on \<^verbatim>\<open>None\<close> when the node is the apex), both lengths set to
  \<^verbatim>\<open>node.length / 2\<close>, and a new apex \<^verbatim>\<open>TreeNode(name, children=[left, right])\<close>
  without a length.
\<close>

definition root_above :: "tree \<Rightarrow> path \<Rightarrow> string option \<Rightarrow> error + tree" where
  "root_above t p nm =
     (case node_at t p of
        None \<Rightarrow> Inl AttributeError
      | Some node \<Rightarrow>
         (case walk_copy t p (parent_of p) of
            Inl e \<Rightarrow> Inl e
          | Inr left \<Rightarrow>
             (case (case parent_of p of
                      None \<Rightarrow> Inl AttributeError
                    | Some q \<Rightarrow> walk_copy t q (Some p)) of
                Inl e \<Rightarrow> Inl e
              | Inr right \<Rightarrow>
                 (case blen node of
                    None \<Rightarrow> Inl TypeError
                  | Some l \<Rightarrow>
                      Inr (Node nm None
                             [Node (name left) (Some (l / 2)) (children left),
                              Node (name right) (Some (l / 2)) (children right)])))))"

text \<open>
  The tree of the notebook's tests,
  \<^verbatim>\<open>(((a:1.0,b:0.8)c:2.4,(d:0.8,e:0.6)f:1.2)g:0.4,(h:0.5,i:0.7)j:1.8)k;\<close>,
  and the tree it prints for \<^verbatim>\<open>root_above(tree.find('c'))\<close>.
\<close>

definition tip :: "string \<Rightarrow> rat \<Rightarrow> tree" where
  "tip n l = Node (Some n) (Some l) []"

definition golden :: tree where
  "golden =
     Node (Some ''k'') None
       [Node (Some ''g'') (Some (4/10))
          [Node (Some ''c'') (Some (24/10)) [tip ''a'' 1, tip ''b'' (8/10)],
           Node (Some ''f'') (Some (12/10)) [tip ''d'' (8/10), tip ''e'' (6/10)]],
        Node (Some ''j'') (Some (18/10)) [tip ''h'' (5/10), tip ''i'' (7/10)]]"

definition golden_cg :: tree where
  "golden_cg =
     Node None None
       [Node (Some ''c'') (Some (12/10)) [tip ''a'' 1, tip ''b'' (8/10)],
        Node (Some ''g'') (Some (12/10))
          [Node (Some ''f'') (Some (12/10)) [tip ''d'' (8/10), tip ''e'' (6/10)],
           Node (Some ''j'') (Some (22/10)) [tip ''h'' (5/10), tip ''i'' (7/10)]]]"

section \<open>The scikit-bio \<^verbatim>\<open>TreeNode\<close> methods the notebook calls\<close>

text \<open>
  \<^verbatim>\<open>tips()\<close> yields, in postorder, the descendants of a node that have no children.
  The node itself is never among them (\<^verbatim>\<open>include_self=False\<close>), so a node without
  children has no tips.  \<^verbatim>\<open>count(tips=True)\<close> is their number.
\<close>

fun leaves :: "tree \<Rightarrow> tree list" where
  "leaves (Node n l cs) = (if cs = [] then [Node n l cs] else concat (map leaves cs))"

definition tips :: "tree \<Rightarrow> tree list" where
  "tips t = (if children t = [] then [] else leaves t)"

definition count_tips :: "tree \<Rightarrow> nat" where
  "count_tips t = length (tips t)"

text \<open>The same traversals as paths from the node they start at.\<close>

fun postorder_paths :: "tree \<Rightarrow> path list"
  and postorder_from :: "nat \<Rightarrow> tree list \<Rightarrow> path list" where
  "postorder_paths (Node n l cs) = postorder_from 0 cs @ [[]]"
| "postorder_from i [] = []"
| "postorder_from i (c # cs) = map ((#) i) (postorder_paths c) @ postorder_from (Suc i) cs"

definition is_tip_at :: "tree \<Rightarrow> path \<Rightarrow> bool" where
  "is_tip_at t p = (case node_at t p of None \<Rightarrow> False | Some n \<Rightarrow> children n = [])"

definition name_at :: "tree \<Rightarrow> path \<Rightarrow> string option" where
  "name_at t p = (case node_at t p of None \<Rightarrow> None | Some n \<Rightarrow> name n)"

definition tip_paths :: "tree \<Rightarrow> path list" where
  "tip_paths t = filter (\<lambda>p. p \<noteq> [] \<and> is_tip_at t p) (postorder_paths t)"

text \<open>\<^verbatim>\<open>copy()\<close> is a deep copy: the same tree in fresh objects.\<close>

definition copy :: "tree \<Rightarrow> tree" where
  "copy t = t"

text \<open>
  \<^verbatim>\<open>find(name)\<close> first builds the two name caches of the tree in postorder, skipping
  unnamed nodes: a second tip with a name already cached raises
  \<^verbatim>\<open>DuplicateNodeError\<close>; nodes with children are collected per name in a list.  It
  then answers with the tip of that name, else with the first cached node with children
  of that name, else it raises \<^verbatim>\<open>MissingNodeError\<close>.
\<close>

definition tip_cache :: "tree \<Rightarrow> (string \<times> path) list" where
  "tip_cache t =
     concat (map (\<lambda>p. case name_at t p of
                         None \<Rightarrow> []
                       | Some nm \<Rightarrow> if is_tip_at t p then [(nm, p)] else [])
                 (postorder_paths t))"

definition non_tip_cache :: "tree \<Rightarrow> (string \<times> path) list" where
  "non_tip_cache t =
     concat (map (\<lambda>p. case name_at t p of
                         None \<Rightarrow> []
                       | Some nm \<Rightarrow> if is_tip_at t p then [] else [(nm, p)])
                 (postorder_paths t))"

definition create_caches :: "tree \<Rightarrow> error + (string \<times> path) list \<times> (string \<times> path) list" where
  "create_caches t =
     (if distinct (map fst (tip_cache t)) then Inr (tip_cache t, non_tip_cache t)
      else Inl DuplicateNodeError)"

definition find :: "tree \<Rightarrow> string option \<Rightarrow> error + path" where
  "find t nm =
     (case create_caches t of
        Inl e \<Rightarrow> Inl e
      | Inr (tc, ntc) \<Rightarrow>
         (case nm of
            None \<Rightarrow> Inl LabelNotFound
          | Some s \<Rightarrow>
             (case map_of tc s of
                Some p \<Rightarrow> Inr p
              | None \<Rightarrow>
                 (case map_of ntc s of
                    Some p \<Rightarrow> Inr p
                  | None \<Rightarrow> Inl LabelNotFound))))"

text \<open>
  \<^verbatim>\<open>lca(tipnames)\<close>, as the rooting restorer calls it: with a Python \<^verbatim>\<open>set\<close> of names,
  given here as a list without repetitions.  For a single name the library evaluates
  \<^verbatim>\<open>self.find(tipnames[0])\<close>, and subscripting a set raises \<^verbatim>\<open>TypeError\<close>.  Otherwise
  every name is looked up with \<^verbatim>\<open>find\<close>, no name at all raises \<^verbatim>\<open>No tips found\<close>, a
  found node that is the apex is the answer, and else the walk starts at the apex and
  steps down for as long as all found nodes lie below one and the same child.  The
  outcome does not depend on the order of the names.  The walk is the library's for
  found nodes that are tips, which is what the rooting restorer passes.
\<close>

function common_prefix :: "path list \<Rightarrow> path" where
  "common_prefix ps =
     (if ps \<noteq> [] \<and> list_all (\<lambda>p. p \<noteq> [] \<and> hd p = hd (hd ps)) ps
      then hd (hd ps) # common_prefix (map tl ps)
      else [])"
  by pat_completeness auto
termination
proof (relation "measure (\<lambda>ps. length (hd ps))", goal_cases)
  case 1
  show ?case by simp
next
  case (2 ps)
  then have "hd ps \<in> set ps" by simp
  with 2 have "hd ps \<noteq> []" by (auto simp: list_all_iff)
  then show ?case using 2 by (simp add: hd_map)
qed

declare common_prefix.simps [simp del]

definition lca :: "tree \<Rightarrow> string option list \<Rightarrow> error + path" where
  "lca t tipnames =
     (if length tipnames = 1 then Inl TypeError
      else case sequence_err (map (find t) tipnames) of
             Inl e \<Rightarrow> Inl e
           | Inr found \<Rightarrow>
               if found = [] then Inl NoTipsFound
               else if [] \<in> set found then Inr []
               else Inr (common_prefix found))"

text \<open>
  \<^verbatim>\<open>unrooted_copy(parent)\<close> copies a node with all its neighbours except \<^verbatim>\<open>parent\<close> as
  children (its children first, then its parent).  Names and lengths belong to edges: a
  node reached from one of its children takes that child's name and length, the
  starting node gets no length and the name \<^verbatim>\<open>root\<close>.  \<^verbatim>\<open>root_at(node)\<close> refuses a node
  without children and otherwise is the unrooted copy of a deep copy, started at the
  node.
\<close>

definition neighbors :: "tree \<Rightarrow> path \<Rightarrow> tree \<Rightarrow> path option \<Rightarrow> path list" where
  "neighbors t p node ignore =
     filter (\<lambda>c. Some c \<noteq> ignore)
       (child_paths p node @ (case parent_of p of None \<Rightarrow> [] | Some q \<Rightarrow> [q]))"

function unrooted_copy :: "tree \<Rightarrow> path \<Rightarrow> path option \<Rightarrow> error + tree" where
  "unrooted_copy t p parent =
     (case node_at t p of
        None \<Rightarrow> Inl AttributeError
      | Some node \<Rightarrow>
         (case sequence_err (map (\<lambda>c. unrooted_copy t c (Some p)) (neighbors t p node parent)) of
            Inl e \<Rightarrow> Inl e
          | Inr kids \<Rightarrow>
             (case parent of
                None \<Rightarrow> Inr (Node (Some ''root'') None kids)
              | Some q \<Rightarrow>
                  if parent_of q = Some p
                  then Inr (Node (name_at t q) (length_of_src t parent) kids)
                  else if parent_of p = Some q
                  then Inr (Node (name node) (blen node) kids)
                  else Inl AssertionError)))"
  by pat_completeness auto

definition unrooted_measure :: "tree \<times> path \<times> path option \<Rightarrow> nat" where
  "unrooted_measure a =
     (case a of (t, p, parent) \<Rightarrow>
        (case node_at t p of
           None \<Rightarrow> 0
         | Some node \<Rightarrow>
            (case parent of
               None \<Rightarrow> Suc (sz t)
             | Some s \<Rightarrow>
                 if s \<in> set (child_paths p node)
                 then (case node_at t s of None \<Rightarrow> 0 | Some c \<Rightarrow> sz t - sz c)
                 else if parent_of p = Some s then sz node
                 else Suc (sz t))))"

lemma unrooted_term:
  assumes n: "node_at t p = Some n" and x: "x \<in> set (neighbors t p n parent)"
  shows "unrooted_measure (t, x, Some p) < unrooted_measure (t, p, parent)"
proof -
  have nt: "sz n \<le> sz t" using sz_node_at[OF n] .
  from x have xne: "Some x \<noteq> parent"
    and xc: "x \<in> set (child_paths p n) \<or> (p \<noteq> [] \<and> x = butlast p)"
    by (auto simp: neighbors_def parent_of_def split: if_splits)
  from xc show ?thesis
  proof
    assume "x \<in> set (child_paths p n)"
    then obtain i where i: "i < length (children n)" "x = p @ [i]"
      by (auto simp: in_child_paths)
    have xn: "node_at t x = Some (children n ! i)" using n i by (simp add: node_at_snoc)
    have np: "p \<notin> set (child_paths x (children n ! i))" using i by (auto simp: in_child_paths)
    have lhs: "unrooted_measure (t, x, Some p) = sz (children n ! i)"
      using xn np i by (simp add: unrooted_measure_def parent_of_def)
    have ci: "sz (children n ! i) < sz n" using sz_child[OF i(1)] .
    show ?thesis
    proof (cases "\<exists>s. parent = Some s \<and> s \<in> set (child_paths p n)")
      case True
      then obtain s j where s: "parent = Some s" "j < length (children n)" "s = p @ [j]"
        by (auto simp: in_child_paths)
      then have ij: "i \<noteq> j" using i xne by auto
      have sj: "node_at t s = Some (children n ! j)" using n s by (simp add: node_at_snoc)
      have rhs: "unrooted_measure (t, p, parent) = sz t - sz (children n ! j)"
        using n s sj True by (simp add: unrooted_measure_def)
      have "sz (children n ! i) + sz (children n ! j) < sz n"
        using sz_two_children[OF i(1) s(2) ij] .
      then show ?thesis unfolding lhs rhs using nt by linarith
    next
      case False
      then have "unrooted_measure (t, p, parent) = sz n \<or> unrooted_measure (t, p, parent) = Suc (sz t)"
        using n by (auto simp: unrooted_measure_def split: option.splits)
      then show ?thesis unfolding lhs using ci nt by auto
    qed
  next
    assume a: "p \<noteq> [] \<and> x = butlast p"
    then have p: "p = butlast p @ [last p]" by simp
    obtain par where par: "node_at t (butlast p) = Some par" "last p < length (children par)"
      using n p node_at_snoc[of t "butlast p" "last p"]
      by (auto split: option.splits if_splits)
    then have "\<exists>i<length (children par). p = butlast p @ [i]"
      using a by (intro exI[of _ "last p"]) simp
    then have "p \<in> set (child_paths (butlast p) par)" by (simp add: in_child_paths)
    then have lhs: "unrooted_measure (t, x, Some p) = sz t - sz n"
      using par n a by (simp add: unrooted_measure_def)
    have np: "parent_of p \<noteq> parent" using a xne by (simp add: parent_of_def)
    have s0: "0 < sz n" by (rule sz_pos)
    show ?thesis
    proof (cases "\<exists>s. parent = Some s \<and> s \<in> set (child_paths p n)")
      case True
      then obtain s j where s: "parent = Some s" "j < length (children n)" "s = p @ [j]"
        by (auto simp: in_child_paths)
      have sj: "node_at t s = Some (children n ! j)" using n s by (simp add: node_at_snoc)
      have rhs: "unrooted_measure (t, p, parent) = sz t - sz (children n ! j)"
        using n s sj True by (simp add: unrooted_measure_def)
      have "sz (children n ! j) < sz n" using sz_child[OF s(2)] .
      then show ?thesis unfolding lhs rhs using nt by linarith
    next
      case False
      then have "unrooted_measure (t, p, parent) = Suc (sz t)"
        using n np by (auto simp: unrooted_measure_def split: option.splits)
      then show ?thesis unfolding lhs by simp
    qed
  qed
qed

termination unrooted_copy
proof (relation "measure unrooted_measure", goal_cases)
  case 1
  show ?case by simp
next
  case (2 t p parent n x)
  then show ?case using unrooted_term by simp
qed

declare unrooted_copy.simps [simp del]

definition root_at :: "tree \<Rightarrow> path \<Rightarrow> error + tree" where
  "root_at t p =
     (case node_at t p of
        None \<Rightarrow> Inl AttributeError
      | Some node \<Rightarrow>
          if children node = [] then Inl TreeError else unrooted_copy (copy t) p None)"

text \<open>
  \<^verbatim>\<open>min(d, key=d.get)\<close> over a dictionary, read in insertion order: the first key whose
  value is minimal.
\<close>

fun first_min :: "'k \<times> nat \<Rightarrow> ('k \<times> nat) list \<Rightarrow> 'k \<times> nat" where
  "first_min best [] = best"
| "first_min best (kv # kvs) = first_min (if snd kv < snd best then kv else best) kvs"

definition min_key :: "('k \<times> nat) list \<Rightarrow> 'k option" where
  "min_key kvs = (case kvs of [] \<Rightarrow> None | kv # rest \<Rightarrow> Some (fst (first_min kv rest)))"

section \<open>Restoring the rooting: \<^verbatim>\<open>restore_rooting\<close>\<close>

text \<open>
  \<^verbatim>\<open>counts = {x: x.count(tips=True) for x in src.children}\<close> is keyed by the child
  objects, here by their indices;
  \<^verbatim>\<open>outgroup = set(x.name for x in min(counts, key=counts.get).tips())\<close>.
\<close>

definition outgroup_child :: "tree \<Rightarrow> nat option" where
  "outgroup_child src =
     min_key (map (\<lambda>i. (i, count_tips (children src ! i))) [0..<length (children src)])"

definition outgroup_names :: "tree \<Rightarrow> string option list" where
  "outgroup_names src =
     (case outgroup_child src of
        None \<Rightarrow> []
      | Some i \<Rightarrow> remdups (map name (tips (children src ! i))))"

text \<open>
  The loop of the degenerate case: at the first tip of \<open>res\<close> whose name is not in the
  outgroup, \<^verbatim>\<open>res = res.root_at(tip.parent)\<close>; without such a tip \<open>res\<close> stays.
\<close>

definition swap_root :: "tree \<Rightarrow> string option list \<Rightarrow> error + tree" where
  "swap_root res outgroup =
     (case filter (\<lambda>p. name_at res p \<notin> set outgroup) (tip_paths res) of
        [] \<Rightarrow> Inr res
      | tp # _ \<Rightarrow> root_at res (butlast tp))"

definition restore_rooting :: "tree \<Rightarrow> tree \<Rightarrow> error + tree" where
  "restore_rooting src trg =
     (if length (children src) \<noteq> 2 then Inl SourceNotRooted
      else if length (children trg) = 2 then Inl TargetNotUnrooted
      else if set (map name (tips src)) \<noteq> set (map name (tips trg)) then Inl TaxaMismatch
      else
        let res = copy trg;
            outgroup = outgroup_names src
        in case lca res outgroup of
             Inl e \<Rightarrow> Inl e
           | Inr l \<Rightarrow>
               if l = [] then
                 (case swap_root res outgroup of
                    Inl e \<Rightarrow> Inl e
                  | Inr res' \<Rightarrow>
                      (case lca res' outgroup of
                         Inl e \<Rightarrow> Inl e
                       | Inr l' \<Rightarrow> root_above res' l' None))
               else root_above res l None)"

section \<open>Example trees\<close>

text \<open>
  The unrooted test tree of the notebook,
  \<^verbatim>\<open>(((a:0.6,b:0.5)g:0.3,c:0.8)h:0.4,(d:0.4,e:0.5)i:0.5,f:0.9)j;\<close>, and a rooted tree
  whose two basal clades have two tips each.
\<close>

definition unrooted3 :: tree where
  "unrooted3 =
     Node (Some ''j'') None
       [Node (Some ''h'') (Some (4/10))
          [Node (Some ''g'') (Some (3/10)) [tip ''a'' (6/10), tip ''b'' (5/10)],
           tip ''c'' (8/10)],
        Node (Some ''i'') (Some (5/10)) [tip ''d'' (4/10), tip ''e'' (5/10)],
        tip ''f'' (9/10)]"

definition tie_src :: tree where
  "tie_src =
     Node (Some ''r'') None
       [Node (Some ''x'') (Some 1) [tip ''c'' 1, tip ''d'' 1],
        Node (Some ''y'') (Some 1) [tip ''a'' 1, tip ''b'' 1]]"

text \<open>
  A target for the order restorer with the labels of the rooted test tree, its children
  in another order, and three nodes the test tree does not have: the tip q below j, and
  the node z with its tip y below f.
\<close>

definition extra_trg :: tree where
  "extra_trg =
     Node (Some ''k'') None
       [Node (Some ''j'') (Some 1) [tip ''q'' 2, tip ''i'' 1, tip ''h'' 1],
        Node (Some ''g'') (Some 1)
          [Node (Some ''f'') (Some 1)
             [tip ''e'' 1, tip ''d'' 1, Node (Some ''z'') (Some 1) [tip ''y'' 1]],
           Node (Some ''c'') (Some 1) [tip ''b'' 1, tip ''a'' 1]]]"





text \<open>
  A source in which a tip and a node with children are both called a, and a target with
  the same clash and with a node without a name.
\<close>

definition clash_src :: tree where
  "clash_src =
     Node (Some ''r'') None
       [Node (Some ''x'') (Some 1) [tip ''a'' 1, Node (Some ''a'') (Some 1) [tip ''b'' 1]]]"

definition clash_trg :: tree where
  "clash_trg =
     Node (Some ''r'') None
       [Node (Some ''x'') (Some 1)
          [tip ''a'' 1, Node None (Some 1) [tip ''q'' 1],
           Node (Some ''a'') (Some 1) [tip ''c'' 1, tip ''b'' 1]]]"

text \<open>
  A source with unique labels and a target in which the labels x and w occur twice, once
  nested in the other.
\<close>

definition dup_src :: tree where
  "dup_src =
     Node (Some ''r'') None
       [Node (Some ''x'') (Some 1) [tip ''a'' 1],
        Node (Some ''w'') (Some 1) [tip ''v'' 1]]"

definition dup_trg :: tree where
  "dup_trg =
     Node (Some ''r'') None
       [Node (Some ''x'') (Some 1)
          [Node (Some ''w'') (Some 1) [Node (Some ''x'') (Some 1) [tip ''a'' 1], tip ''v'' 1],
           Node (Some ''a'') (Some 1) [tip ''t'' 1]],
        Node (Some ''w'') (Some 1) [Node (Some ''v'') (Some 1) [tip ''u'' 1]]]"

text \<open>A rooted source one of whose basal clades is a single tip, and an unrooted target.\<close>

definition single_src :: tree where
  "single_src =
     Node None None [tip ''a'' 1, Node None (Some 1) [tip ''b'' 1, tip ''c'' 1]]"

definition single_trg :: tree where
  "single_trg = Node None None [tip ''a'' 1, tip ''b'' 1, tip ''c'' 1]"

section \<open>Restoring node labels: \<^verbatim>\<open>restore_node_labels\<close>\<close>

text \<open>
  \<^verbatim>\<open>non_tips(include_self=True)\<close>: the nodes with children, in postorder, the node it
  is called on included.
\<close>

fun non_tips :: "tree \<Rightarrow> tree list" where
  "non_tips (Node n l cs) = (if cs = [] then [] else concat (map non_tips cs) @ [Node n l cs])"

definition taxa :: "tree \<Rightarrow> string option set" where
  "taxa node = set (map name (tips node))"

text \<open>
  The first loop fills the dictionary \<^verbatim>\<open>label2taxa\<close>, kept here in insertion order; a
  label that is already a key raises \<^verbatim>\<open>Duplicated node label\<close>.
\<close>

fun read_labels ::
  "tree list \<Rightarrow> (string \<times> string option set) list \<Rightarrow> error + (string \<times> string option set) list" where
  "read_labels [] label2taxa = Inr label2taxa"
| "read_labels (node # rest) label2taxa =
     (case name node of
        None \<Rightarrow> read_labels rest label2taxa
      | Some label \<Rightarrow>
          if label = [] then read_labels rest label2taxa
          else if label \<in> fst ` set label2taxa then Inl DuplicateLabel
          else read_labels rest (label2taxa @ [(label, taxa node)]))"

text \<open>
  The second loop visits every node with children of the copy and gives it the first
  label of the dictionary whose set of tip names equals the node's.  Only nodes with
  children are renamed and only tip names are compared, so the visits do not influence
  one another and the loop is a map over the tree.
\<close>

definition matching_label :: "(string \<times> string option set) list \<Rightarrow> string option set \<Rightarrow> string option" where
  "matching_label label2taxa tx =
     (case filter (\<lambda>(label, s). s = tx) label2taxa of
        [] \<Rightarrow> None
      | (label, s) # _ \<Rightarrow> Some label)"

fun mark_labels :: "(string \<times> string option set) list \<Rightarrow> tree \<Rightarrow> tree" where
  "mark_labels label2taxa (Node n l cs) =
     (if cs = [] then Node n l cs
      else Node (case matching_label label2taxa (taxa (Node n l cs)) of
                   None \<Rightarrow> n
                 | Some label \<Rightarrow> Some label)
                l (map (mark_labels label2taxa) cs))"

definition restore_node_labels :: "tree \<Rightarrow> tree \<Rightarrow> error + tree" where
  "restore_node_labels src trg =
     (case read_labels (non_tips src) [] of
        Inl e \<Rightarrow> Inl e
      | Inr label2taxa \<Rightarrow> Inr (mark_labels label2taxa (copy trg)))"

section \<open>Restoring the node order: \<^verbatim>\<open>restore_node_order\<close>\<close>

text \<open>\<^verbatim>\<open>traverse()\<close> is a preorder traversal that includes the node it starts at.\<close>

fun preorder :: "tree \<Rightarrow> tree list" where
  "preorder (Node n l cs) = Node n l cs # concat (map preorder cs)"

text \<open>
  \<^verbatim>\<open>name2child\<close> maps a name to the last child of that name; children are objects,
  here indices into the old child list.  \<^verbatim>\<open>ntrg.append(child)\<close> first takes the child
  out of the new list if it is already there (it still has \<^verbatim>\<open>ntrg\<close> as its parent) and
  then puts it at the end.  A name that is no key raises \<^verbatim>\<open>KeyError\<close>.
\<close>

definition name2child :: "tree \<Rightarrow> string option \<Rightarrow> nat option" where
  "name2child ntrg nm =
     (case filter (\<lambda>i. name (children ntrg ! i) = nm) (rev [0..<length (children ntrg)]) of
        [] \<Rightarrow> None
      | i # _ \<Rightarrow> Some i)"

fun append_children :: "tree \<Rightarrow> string option list \<Rightarrow> nat list \<Rightarrow> error + nat list" where
  "append_children ntrg [] acc = Inr acc"
| "append_children ntrg (nm # nms) acc =
     (case name2child ntrg nm of
        None \<Rightarrow> Inl ChildMismatch
      | Some i \<Rightarrow> append_children ntrg nms (filter (\<lambda>j. j \<noteq> i) acc @ [i]))"

fun set_children :: "tree \<Rightarrow> path \<Rightarrow> tree list \<Rightarrow> tree" where
  "set_children (Node n l cs) [] new = Node n l new"
| "set_children (Node n l cs) (i # p) new =
     (if i < length cs then Node n l (cs[i := set_children (cs ! i) p new]) else Node n l cs)"

text \<open>One round of the loop, for a source node that has children.\<close>

definition reorder_node :: "tree \<Rightarrow> tree \<Rightarrow> error + tree" where
  "reorder_node res nsrc =
     (if name nsrc = None \<or> name nsrc = Some [] then Inl MissingLabel
      else case find res (name nsrc) of
             Inl e \<Rightarrow> Inl e
           | Inr p \<Rightarrow>
              (case node_at res p of
                 None \<Rightarrow> Inl AttributeError
               | Some ntrg \<Rightarrow>
                  (case append_children ntrg (map name (children nsrc)) [] of
                     Inl e \<Rightarrow> Inl e
                   | Inr order \<Rightarrow> Inr (set_children res p (map ((!) (children ntrg)) order)))))"

fun reorder_all :: "tree list \<Rightarrow> tree \<Rightarrow> error + tree" where
  "reorder_all [] res = Inr res"
| "reorder_all (nsrc # rest) res =
     (if children nsrc = [] then reorder_all rest res
      else case reorder_node res nsrc of
             Inl e \<Rightarrow> Inl e
           | Inr res' \<Rightarrow> reorder_all rest res')"

definition restore_node_order :: "tree \<Rightarrow> tree \<Rightarrow> error + tree" where
  "restore_node_order src trg = reorder_all (preorder src) (copy trg)"

section \<open>Properties of the directional copy and the rerooting\<close>

text \<open>
  The data model gives every node but the apex a branch length.  \<open>lengths_ok\<close> says
  so for a tree; the apex itself may or may not have one.
\<close>

fun all_lengths :: "tree \<Rightarrow> bool" where
  "all_lengths (Node n l cs) = (l \<noteq> None \<and> list_all all_lengths cs)"

definition lengths_ok :: "tree \<Rightarrow> bool" where
  "lengths_ok t = list_all all_lengths (children t)"

definition walk_ready :: "tree \<Rightarrow> path \<Rightarrow> tree \<Rightarrow> path option \<Rightarrow> bool" where
  "walk_ready t p node src =
     (\<not> (rooted_of t p = Some True \<and> position_of p = Root) \<and> move_of t p node src \<noteq> NA)"

lemma all_lengths_node_at:
  "all_lengths t \<Longrightarrow> node_at t p = Some n \<Longrightarrow> blen n \<noteq> None"
proof (induction p arbitrary: t)
  case Nil
  then show ?case by (cases t) auto
next
  case (Cons i p)
  then have i: "i < length (children t)" and n: "node_at (children t ! i) p = Some n"
    by (auto split: if_splits)
  have "all_lengths (children t ! i)"
    using Cons.prems(1) i by (cases t) (auto simp: list_all_length)
  from Cons.IH[OF this n] show ?case .
qed

lemma lengths_ok_node_at:
  assumes "lengths_ok t" "node_at t p = Some n" "p \<noteq> []"
  shows "blen n \<noteq> None"
proof -
  from assms(3) obtain i q where p: "p = i # q" by (cases p) auto
  with assms(2) have i: "i < length (children t)" and n: "node_at (children t ! i) q = Some n"
    by (auto split: if_splits)
  have "all_lengths (children t ! i)"
    using assms(1) i by (auto simp: lengths_ok_def list_all_length)
  from all_lengths_node_at[OF this n] show ?thesis .
qed

lemma sequence_err_map_ok:
  "(\<And>x. x \<in> set xs \<Longrightarrow> \<exists>v. f x = Inr v) \<Longrightarrow> \<exists>vs. sequence_err (map f xs) = Inr vs \<and> length vs = length xs"
proof (induction xs)
  case Nil
  then show ?case by simp
next
  case (Cons x xs)
  then obtain v where v: "f x = Inr v" by auto
  from Cons obtain vs where vs: "sequence_err (map f xs) = Inr vs" "length vs = length xs" by auto
  show ?case using v vs by simp
qed

lemma position_snoc: "position_of (p @ [i]) = (if p = [] then Basal else Derived)"
  by (simp add: position_of_def)

lemma ready_child:
  assumes "\<not> (rooted_of t p = Some True \<and> position_of p = Root)"
  shows "walk_ready t (p @ [i]) c (Some p)"
proof -
  have "\<not> (rooted_of t (p @ [i]) = Some True \<and> position_of (p @ [i]) = Basal)"
    using assms by (auto simp: rooted_of_def position_of_def split: if_splits)
  then show ?thesis
    by (auto simp: walk_ready_def move_of_def parent_of_def position_of_def)
qed

lemma ready_parent:
  assumes "node_at t p = Some n" "p \<noteq> []"
    "\<not> (rooted_of t p = Some True \<and> position_of p = Basal)"
    "node_at t (butlast p) = Some par"
  shows "walk_ready t (butlast p) par (Some p)"
proof -
  have p: "p = butlast p @ [last p]" using assms(2) by simp
  have "last p < length (children par)"
    using assms(1,4) p node_at_snoc[of t "butlast p" "last p"] by (auto split: if_splits)
  then have "\<exists>i<length (children par). p = butlast p @ [i]"
    using assms(2) by (intro exI[of _ "last p"]) simp
  then have mem: "Some p \<in> Some ` set (child_paths (butlast p) par)"
    by (simp add: in_child_paths)
  have nr: "\<not> (rooted_of t (butlast p) = Some True \<and> position_of (butlast p) = Root)"
    using assms(2,3) by (auto simp: rooted_of_def position_of_def split: if_splits)
  have "move_of t (butlast p) par (Some p) \<noteq> NA"
    using mem by (auto simp: move_of_def)
  then show ?thesis using nr by (simp add: walk_ready_def)
qed

lemma ready_top:
  assumes "rooted_of t p = Some True" "position_of p = Basal" "node_at t p = Some n"
  shows "\<exists>sib. node_at t (hd (siblings t p)) = Some sib \<and>
           walk_ready t (hd (siblings t p)) sib (Some p) \<and>
           move_of t (hd (siblings t p)) sib (Some p) = Bottom"
proof -
  from rooted_basal[OF assms] obtain i where i: "i < 2" "p = [i]"
    "length (children t) = 2" "hd (siblings t p) = [1 - i]" by auto
  let ?q = "[1 - i]"
  have q: "node_at t ?q = Some (children t ! (1 - i))" using i by auto
  have rq: "rooted_of t ?q = Some True" "position_of ?q = Basal"
    using i by (auto simp: rooted_of_def position_of_def)
  from rooted_basal[OF rq q] have "hd (siblings t ?q) = [1 - (1 - i)]" by auto
  then have "hd (siblings t ?q) = p" using i by auto
  then have "move_of t ?q (children t ! (1 - i)) (Some p) = Bottom"
    using rq by (simp add: move_of_def)
  then show ?thesis using q rq i by (auto simp: walk_ready_def)
qed

lemma new_length_ok:
  assumes "lengths_ok t" "node_at t p = Some n" "move_of t p n src \<noteq> NA"
  shows "\<exists>len. new_length t n src (move_of t p n src) = Inr len"
proof (cases "move_of t p n src = Bottom")
  case True
  then have rb: "rooted_of t p = Some True" "position_of p = Basal"
    and src: "src = Some (hd (siblings t p))"
    by (auto simp: move_of_def split: if_splits)
  from rooted_basal[OF rb assms(2)] obtain i where i: "i < 2" "p = [i]"
    "length (children t) = 2" "hd (siblings t p) = [1 - i]" by auto
  have q: "node_at t [1 - i] = Some (children t ! (1 - i))" using i by auto
  have "blen n \<noteq> None" using lengths_ok_node_at[OF assms(1,2)] i by simp
  moreover have "blen (children t ! (1 - i)) \<noteq> None"
    using lengths_ok_node_at[OF assms(1) q] by simp
  ultimately show ?thesis using True src i q
    by (auto simp: new_length_def length_of_src_def)
next
  case False
  then show ?thesis by (auto simp: new_length_def)
qed

lemma walk_copy_succeeds:
  "lengths_ok t \<Longrightarrow> node_at t p = Some n \<Longrightarrow> walk_ready t p n src \<Longrightarrow>
   \<exists>r. walk_copy t p src = Inr r"
proof (induction t p src arbitrary: n rule: walk_copy.induct)
  case (1 t p src)
  note n = \<open>node_at t p = Some n\<close>
  from "1.prems" have nr: "\<not> (rooted_of t p = Some True \<and> position_of p = Root)"
    and mv: "move_of t p n src \<noteq> NA" by (auto simp: walk_ready_def)
  from new_length_ok[OF "1.prems"(1) n mv] obtain len
    where len: "new_length t n src (move_of t p n src) = Inr len" by auto
  have "\<And>x. x \<in> set (filter (\<lambda>c. Some c \<noteq> src) (child_paths p n)) \<Longrightarrow>
          \<exists>v. walk_copy t x (Some p) = Inr v"
  proof -
    fix x assume x: "x \<in> set (filter (\<lambda>c. Some c \<noteq> src) (child_paths p n))"
    then obtain i where i: "i < length (children n)" "x = p @ [i]"
      by (auto simp: in_child_paths)
    have xn: "node_at t x = Some (children n ! i)" using n i by (simp add: node_at_snoc)
    have "walk_ready t x (children n ! i) (Some p)" using ready_child[OF nr] i by simp
    from "1.IH"(1)[OF n nr mv len x "1.prems"(1) xn this] show "\<exists>v. walk_copy t x (Some p) = Inr v" .
  qed
  from sequence_err_map_ok[of _ "\<lambda>c. walk_copy t c (Some p)", OF this] obtain kids
    where kids: "sequence_err (map (\<lambda>c. walk_copy t c (Some p))
             (filter (\<lambda>c. Some c \<noteq> src) (child_paths p n))) = Inr kids" by blast
  have "\<exists>ups. (if move_of t p n src = Up \<and> position_of p \<noteq> Root
          then sequence_err [walk_copy t (butlast p) (Some p)] else Inr []) = Inr ups"
  proof (cases "move_of t p n src = Up \<and> position_of p \<noteq> Root")
    case True
    then have pne: "p \<noteq> []" by (auto simp: position_of_def)
    have nrb: "\<not> (rooted_of t p = Some True \<and> position_of p = Basal)"
      using True by (auto simp: move_of_def split: if_splits)
    have p: "p = butlast p @ [last p]" using pne by simp
    obtain par where par: "node_at t (butlast p) = Some par"
      using n p node_at_snoc[of t "butlast p" "last p"] by (auto split: option.splits)
    from "1.IH"(2)[OF n nr mv len kids True "1.prems"(1) par ready_parent[OF n pne nrb par]]
    obtain r where "walk_copy t (butlast p) (Some p) = Inr r" by auto
    then show ?thesis using True by simp
  next
    case False
    then show ?thesis by auto
  qed
  then obtain ups where ups: "(if move_of t p n src = Up \<and> position_of p \<noteq> Root
          then sequence_err [walk_copy t (butlast p) (Some p)] else Inr []) = Inr ups" by auto
  have "\<exists>tops. (if move_of t p n src = Top
          then sequence_err [walk_copy t (hd (siblings t p)) (Some p)] else Inr []) = Inr tops"
  proof (cases "move_of t p n src = Top")
    case True
    then have rb: "rooted_of t p = Some True" "position_of p = Basal"
      by (auto simp: move_of_def split: if_splits)
    from ready_top[OF rb n] obtain sib where sib: "node_at t (hd (siblings t p)) = Some sib"
      "walk_ready t (hd (siblings t p)) sib (Some p)" by auto
    from "1.IH"(3)[OF n nr mv len kids ups True "1.prems"(1) sib]
    obtain r where "walk_copy t (hd (siblings t p)) (Some p) = Inr r" by auto
    then show ?thesis using True by simp
  next
    case False
    then show ?thesis by auto
  qed
  then obtain tops where tops: "(if move_of t p n src = Top
          then sequence_err [walk_copy t (hd (siblings t p)) (Some p)] else Inr []) = Inr tops" by auto
  have "walk_copy t p src = Inr (Node (name n) len (kids @ ups @ tops))"
    by (subst walk_copy.simps) (simp add: n nr mv len kids ups tops)
  then show ?case by blast
qed

lemma golden_lengths_ok: "lengths_ok golden"
  by (simp add: lengths_ok_def golden_def tip_def)


section \<open>Tip names under and outside a node\<close>










lemma distinct_concat_disjoint:
  assumes "distinct (concat xss)" "i < length xss" "j < length xss" "i \<noteq> j"
  shows "set (xss ! i) \<inter> set (xss ! j) = {}"
  using assms
proof (induction xss arbitrary: i j)
  case Nil
  then show ?case by simp
next
  case (Cons xs xss)
  show ?case
  proof (cases i)
    case 0
    then obtain j' where j: "j = Suc j'" using Cons.prems by (cases j) auto
    then have "xss ! j' \<in> set xss" using Cons.prems by simp
    then have "set (xss ! j') \<subseteq> set (concat xss)" by auto
    then show ?thesis using Cons.prems(1) 0 j by auto
  next
    case (Suc i')
    show ?thesis
    proof (cases j)
      case 0
      have "xss ! i' \<in> set xss" using Cons.prems Suc by simp
      then have "set (xss ! i') \<subseteq> set (concat xss)" by auto
      then show ?thesis using Cons.prems(1) 0 Suc by auto
    next
      case (Suc j')
      then show ?thesis using Cons.IH[of i' j'] Cons.prems \<open>i = Suc i'\<close> by simp
    qed
  qed
qed

lemma distinct_concat_nth:
  "distinct (concat xss) \<Longrightarrow> i < length xss \<Longrightarrow> distinct (xss ! i)"
  by (induction xss arbitrary: i) (auto simp: nth_Cons split: nat.splits)












lemma tips_leaves: "children t \<noteq> [] \<Longrightarrow> tips t = leaves t"
  by (simp add: tips_def)




section \<open>Rounds of the order restorer\<close>

text \<open>The names of a node's children, in order.\<close>

definition child_names :: "tree \<Rightarrow> string option list" where
  "child_names node = map name (children node)"

lemma name2child_Some:
  "name2child ntrg nm = Some i \<Longrightarrow> i < length (children ntrg) \<and> name (children ntrg ! i) = nm"
proof -
  assume "name2child ntrg nm = Some i"
  then obtain rest where
    "filter (\<lambda>i. name (children ntrg ! i) = nm) (rev [0..<length (children ntrg)]) = i # rest"
    by (auto simp: name2child_def split: list.splits)
  then have "i \<in> set (filter (\<lambda>i. name (children ntrg ! i) = nm) (rev [0..<length (children ntrg)]))"
    by simp
  then show ?thesis by simp
qed

lemma name2child_None: "name2child ntrg nm = None \<longleftrightarrow> nm \<notin> set (child_names ntrg)"
proof -
  have "name2child ntrg nm = None \<longleftrightarrow>
        filter (\<lambda>i. name (children ntrg ! i) = nm) (rev [0..<length (children ntrg)]) = []"
    by (simp add: name2child_def split: list.splits)
  also have "\<dots> \<longleftrightarrow> (\<forall>i < length (children ntrg). name (children ntrg ! i) \<noteq> nm)"
    by (auto simp: filter_empty_conv)
  also have "\<dots> \<longleftrightarrow> nm \<notin> set (child_names ntrg)"
  proof
    assume a: "\<forall>i < length (children ntrg). name (children ntrg ! i) \<noteq> nm"
    show "nm \<notin> set (child_names ntrg)"
    proof
      assume "nm \<in> set (child_names ntrg)"
      then obtain c where c: "c \<in> set (children ntrg)" "name c = nm"
        by (auto simp: child_names_def)
      then obtain i where "i < length (children ntrg)" "children ntrg ! i = c"
        by (auto simp: in_set_conv_nth)
      with a c show False by auto
    qed
  next
    assume a: "nm \<notin> set (child_names ntrg)"
    show "\<forall>i < length (children ntrg). name (children ntrg ! i) \<noteq> nm"
    proof (intro allI impI)
      fix i assume "i < length (children ntrg)"
      then have "children ntrg ! i \<in> set (children ntrg)" by simp
      then have "name (children ntrg ! i) \<in> set (child_names ntrg)"
        unfolding child_names_def by (metis image_eqI list.set_map)
      with a show "name (children ntrg ! i) \<noteq> nm" by auto
    qed
  qed
  finally show ?thesis .
qed

lemma append_children_ok:
  "set nms \<subseteq> set (child_names ntrg) \<Longrightarrow> distinct acc \<Longrightarrow>
   \<exists>order. append_children ntrg nms acc = Inr order \<and> distinct order \<and>
      set order = set acc \<union> {i. \<exists>nm \<in> set nms. name2child ntrg nm = Some i}"
proof (induction nms arbitrary: acc)
  case Nil
  then show ?case by simp
next
  case (Cons nm nms)
  from Cons.prems have "nm \<in> set (child_names ntrg)" by simp
  then obtain i where i: "name2child ntrg nm = Some i"
    using name2child_None[of ntrg nm] by (cases "name2child ntrg nm") auto
  have d: "distinct (filter (\<lambda>j. j \<noteq> i) acc @ [i])" using Cons.prems by simp
  from Cons.IH[OF _ d] Cons.prems obtain order where
    o: "append_children ntrg nms (filter (\<lambda>j. j \<noteq> i) acc @ [i]) = Inr order" "distinct order"
       "set order = set (filter (\<lambda>j. j \<noteq> i) acc @ [i]) \<union> {i. \<exists>nm \<in> set nms. name2child ntrg nm = Some i}"
    by auto
  have "set order = set (acc) \<union> {j. \<exists>nm' \<in> set (nm # nms). name2child ntrg nm' = Some j}"
    using o(3) i by auto
  then show ?case using o(1,2) i by simp
qed

lemma append_children_fail:
  "\<not> set nms \<subseteq> set (child_names ntrg) \<Longrightarrow> append_children ntrg nms acc = Inl ChildMismatch"
proof (induction nms arbitrary: acc)
  case Nil
  then show ?case by simp
next
  case (Cons nm nms)
  show ?case
  proof (cases "name2child ntrg nm")
    case None
    then show ?thesis by simp
  next
    case (Some i)
    then have "nm \<in> set (child_names ntrg)" using name2child_None[of ntrg nm] by auto
    with Cons.prems have "\<not> set nms \<subseteq> set (child_names ntrg)" by auto
    from Cons.IH[OF this] show ?thesis using Some by simp
  qed
qed

lemma node_at_set_children:
  "node_at res p = Some ntrg \<Longrightarrow>
   node_at (set_children res p new) p = Some (Node (name ntrg) (blen ntrg) new)"
proof (induction p arbitrary: res)
  case Nil
  then show ?case by (cases res) auto
next
  case (Cons i p)
  obtain n l cs where r: "res = Node n l cs" by (cases res)
  from Cons.prems r have i: "i < length cs" and at: "node_at (cs ! i) p = Some ntrg"
    by (auto split: if_splits)
  from Cons.IH[OF at] show ?case using r i by simp
qed

text \<open>\<open>replace_at t p new\<close> is \<open>t\<close> with the subtree at \<open>p\<close> exchanged for \<open>new\<close>.\<close>

fun replace_at :: "tree \<Rightarrow> path \<Rightarrow> tree \<Rightarrow> tree" where
  "replace_at t [] new = new"
| "replace_at (Node n l cs) (i # p) new =
     (if i < length cs then Node n l (cs[i := replace_at (cs ! i) p new]) else Node n l cs)"

lemma set_children_replace:
  "node_at t p = Some n \<Longrightarrow> set_children t p new = replace_at t p (Node (name n) (blen n) new)"
proof (induction p arbitrary: t)
  case Nil
  then show ?case by (cases t) auto
next
  case (Cons i p)
  obtain a b cs where t: "t = Node a b cs" by (cases t)
  from Cons.prems t have i: "i < length cs" and at: "node_at (cs ! i) p = Some n"
    by (auto split: if_splits)
  from Cons.IH[OF at] show ?case using t i by simp
qed

lemma node_at_replace_at:
  "node_at t p \<noteq> None \<Longrightarrow> node_at (replace_at t p new) p = Some new"
proof (induction p arbitrary: t)
  case Nil
  then show ?case by simp
next
  case (Cons i p)
  obtain a b cs where t: "t = Node a b cs" by (cases t)
  from Cons.prems t have i: "i < length cs" and at: "node_at (cs ! i) p \<noteq> None"
    by (auto split: if_splits)
  from Cons.IH[OF at] show ?case using t i by simp
qed

lemma replace_at_same:
  "node_at t p = Some n \<Longrightarrow> replace_at t p n = t"
proof (induction p arbitrary: t)
  case Nil
  then show ?case by simp
next
  case (Cons i p)
  obtain a b cs where t: "t = Node a b cs" by (cases t)
  from Cons.prems t have i: "i < length cs" and at: "node_at (cs ! i) p = Some n"
    by (auto split: if_splits)
  from Cons.IH[OF at] show ?case using t i by simp
qed

lemma replace_at_twice:
  "node_at t p \<noteq> None \<Longrightarrow> replace_at (replace_at t p a) p b = replace_at t p b"
proof (induction p arbitrary: t)
  case Nil
  then show ?case by simp
next
  case (Cons i p)
  obtain x y cs where t: "t = Node x y cs" by (cases t)
  from Cons.prems t have i: "i < length cs" and at: "node_at (cs ! i) p \<noteq> None"
    by (auto split: if_splits)
  from Cons.IH[OF at] show ?case using t i by simp
qed

lemma replace_at_append:
  "node_at t p = Some n \<Longrightarrow> replace_at t (p @ q) new = replace_at t p (replace_at n q new)"
proof (induction p arbitrary: t)
  case Nil
  then show ?case by simp
next
  case (Cons i p)
  obtain x y cs where t: "t = Node x y cs" by (cases t)
  from Cons.prems t have i: "i < length cs" and at: "node_at (cs ! i) p = Some n"
    by (auto split: if_splits)
  from Cons.IH[OF at] show ?case using t i by simp
qed

lemma distinct_concat_update:
  "distinct (concat xss) \<Longrightarrow> i < length xss \<Longrightarrow> distinct ys \<Longrightarrow> set ys \<subseteq> set (xss ! i) \<Longrightarrow>
   distinct (concat (xss[i := ys]))"
proof (induction xss arbitrary: i)
  case Nil
  then show ?case by simp
next
  case (Cons xs xss)
  show ?case
  proof (cases i)
    case 0
    then show ?thesis using Cons.prems by auto
  next
    case (Suc j)
    have "set (concat (xss[j := ys])) \<subseteq> set (concat xss)"
    proof
      fix x assume "x \<in> set (concat (xss[j := ys]))"
      then obtain zs where zs: "zs \<in> set (xss[j := ys])" "x \<in> set zs" by auto
      then have "zs = ys \<or> zs \<in> set xss" using set_update_subset_insert[of xss j ys] by auto
      then show "x \<in> set (concat xss)"
      proof
        assume "zs = ys"
        then have "x \<in> set (xss ! j)" using zs Cons.prems(4) Suc by auto
        moreover have "xss ! j \<in> set xss" using Cons.prems(2) Suc by simp
        ultimately show ?thesis by auto
      next
        assume "zs \<in> set xss"
        then show ?thesis using zs by auto
      qed
    qed
    moreover have "distinct (concat (xss[j := ys]))"
      using Cons.IH[of j] Cons.prems Suc by simp
    ultimately show ?thesis using Cons.prems(1) Suc by auto
  qed
qed

lemma set_concat_update:
  "i < length xss \<Longrightarrow> set ys \<subseteq> set (xss ! i) \<Longrightarrow> set (concat (xss[i := ys])) \<subseteq> set (concat xss)"
proof
  fix x assume i: "i < length xss" and s: "set ys \<subseteq> set (xss ! i)"
    and "x \<in> set (concat (xss[i := ys]))"
  then obtain zs where zs: "zs \<in> set (xss[i := ys])" "x \<in> set zs" by auto
  then have "zs = ys \<or> zs \<in> set xss" using set_update_subset_insert[of xss i ys] by auto
  then show "x \<in> set (concat xss)"
  proof
    assume "zs = ys"
    then have "x \<in> set (xss ! i)" using zs s by auto
    moreover have "xss ! i \<in> set xss" using i by simp
    ultimately show ?thesis by auto
  next
    assume "zs \<in> set xss"
    then show ?thesis using zs by auto
  qed
qed

lemma distinct_concat_select:
  "distinct (concat xss) \<Longrightarrow> distinct ks \<Longrightarrow> (\<forall>k \<in> set ks. k < length xss) \<Longrightarrow>
   distinct (concat (map ((!) xss) ks)) \<and> set (concat (map ((!) xss) ks)) \<subseteq> set (concat xss)"
proof (induction ks)
  case Nil
  then show ?case by simp
next
  case (Cons k ks)
  then have ih: "distinct (concat (map ((!) xss) ks))"
    "set (concat (map ((!) xss) ks)) \<subseteq> set (concat xss)" by auto
  have k: "k < length xss" using Cons.prems(3) by simp
  have dk: "distinct (xss ! k)" using distinct_concat_nth[OF Cons.prems(1) k] .
  have sk: "set (xss ! k) \<subseteq> set (concat xss)" using k by (auto intro: nth_mem)
  have dj: "set (xss ! k) \<inter> set (concat (map ((!) xss) ks)) = {}"
  proof (rule ccontr)
    assume "set (xss ! k) \<inter> set (concat (map ((!) xss) ks)) \<noteq> {}"
    then obtain x j where x: "x \<in> set (xss ! k)" "j \<in> set ks" "x \<in> set (xss ! j)" by auto
    have "j \<noteq> k" using x(2) Cons.prems(2) by auto
    moreover have "j < length xss" using x(2) Cons.prems(3) by simp
    ultimately have "set (xss ! k) \<inter> set (xss ! j) = {}"
      using distinct_concat_disjoint[OF Cons.prems(1) k, of j] by auto
    then show False using x by auto
  qed
  show ?case using ih dk sk dj by auto
qed

lemma postorder_facts:
  "((\<forall>p. node_at t p \<noteq> None \<longrightarrow> p \<in> set (postorder_paths t)) \<and> distinct (postorder_paths t))"
  "((\<forall>k q. k < length cs \<and> node_at (cs ! k) q \<noteq> None \<longrightarrow> (i + k) # q \<in> set (postorder_from i cs)) \<and>
    distinct (postorder_from i cs) \<and>
    (\<forall>r \<in> set (postorder_from i cs). r \<noteq> [] \<and> i \<le> hd r))"
proof (induction t and i cs rule: postorder_paths_postorder_from.induct)
  case (1 n l cs)
  then have mem: "\<And>k q. k < length cs \<Longrightarrow> node_at (cs ! k) q \<noteq> None \<Longrightarrow> k # q \<in> set (postorder_from 0 cs)"
    and d: "distinct (postorder_from 0 cs)"
    and ne: "\<And>r. r \<in> set (postorder_from 0 cs) \<Longrightarrow> r \<noteq> []"
    by auto
  have "\<forall>p. node_at (Node n l cs) p \<noteq> None \<longrightarrow> p \<in> set (postorder_paths (Node n l cs))"
  proof (intro allI impI)
    fix p assume v: "node_at (Node n l cs) p \<noteq> None"
    show "p \<in> set (postorder_paths (Node n l cs))"
    proof (cases p)
      case Nil
      then show ?thesis by simp
    next
      case (Cons k q)
      with v have "k < length cs" "node_at (cs ! k) q \<noteq> None" by (auto split: if_splits)
      from mem[OF this] show ?thesis using Cons by simp
    qed
  qed
  moreover have "distinct (postorder_paths (Node n l cs))" using d ne by auto
  ultimately show ?case by simp
next
  case (2 i)
  then show ?case by simp
next
  case (3 i c cs)
  then have pm: "\<And>q. node_at c q \<noteq> None \<Longrightarrow> q \<in> set (postorder_paths c)"
    and pd: "distinct (postorder_paths c)"
    and fm: "\<And>k q. k < length cs \<Longrightarrow> node_at (cs ! k) q \<noteq> None \<Longrightarrow>
               (Suc i + k) # q \<in> set (postorder_from (Suc i) cs)"
    and fd: "distinct (postorder_from (Suc i) cs)"
    and fh: "\<And>r. r \<in> set (postorder_from (Suc i) cs) \<Longrightarrow> r \<noteq> [] \<and> Suc i \<le> hd r"
    by auto
  have a: "\<forall>k q. k < length (c # cs) \<and> node_at ((c # cs) ! k) q \<noteq> None \<longrightarrow>
            (i + k) # q \<in> set (postorder_from i (c # cs))"
  proof (intro allI impI)
    fix k q assume h: "k < length (c # cs) \<and> node_at ((c # cs) ! k) q \<noteq> None"
    show "(i + k) # q \<in> set (postorder_from i (c # cs))"
    proof (cases k)
      case 0
      then show ?thesis using h pm by auto
    next
      case (Suc k')
      then have "k' < length cs" "node_at (cs ! k') q \<noteq> None" using h by auto
      from fm[OF this] show ?thesis using Suc by simp
    qed
  qed
  have b: "distinct (postorder_from i (c # cs))"
  proof -
    have "distinct (map ((#) i) (postorder_paths c))" using pd by (simp add: distinct_map)
    moreover have "set (map ((#) i) (postorder_paths c)) \<inter> set (postorder_from (Suc i) cs) = {}"
    proof (rule ccontr)
      assume "set (map ((#) i) (postorder_paths c)) \<inter> set (postorder_from (Suc i) cs) \<noteq> {}"
      then obtain r where r: "r \<in> set (map ((#) i) (postorder_paths c))"
        "r \<in> set (postorder_from (Suc i) cs)" by auto
      from r(1) have "hd r = i" by auto
      moreover from fh[OF r(2)] have "Suc i \<le> hd r" by simp
      ultimately show False by simp
    qed
    ultimately show ?thesis using fd by simp
  qed
  have c: "\<forall>r \<in> set (postorder_from i (c # cs)). r \<noteq> [] \<and> i \<le> hd r"
  proof
    fix r assume "r \<in> set (postorder_from i (c # cs))"
    then have "r \<in> set (map ((#) i) (postorder_paths c)) \<or> r \<in> set (postorder_from (Suc i) cs)"
      by simp
    then show "r \<noteq> [] \<and> i \<le> hd r"
    proof
      assume "r \<in> set (map ((#) i) (postorder_paths c))"
      then show ?thesis by auto
    next
      assume "r \<in> set (postorder_from (Suc i) cs)"
      from fh[OF this] show ?thesis by simp
    qed
  qed
  show ?case using a b c by blast
qed

lemma postorder_paths_mem: "node_at t p = Some n \<Longrightarrow> p \<in> set (postorder_paths t)"
  using postorder_facts(1)[of t] by auto

lemma distinct_postorder_paths: "distinct (postorder_paths t)"
  using postorder_facts(1)[of t] by auto

lemma name_at_Some:
  "name_at t p = Some L \<Longrightarrow> \<exists>n. node_at t p = Some n \<and> name n = Some L"
  by (auto simp: name_at_def split: option.splits)

lemma tip_cache_mem:
  "(L, q) \<in> set (tip_cache t) \<longleftrightarrow>
     q \<in> set (postorder_paths t) \<and> name_at t q = Some L \<and> is_tip_at t q"
  by (auto simp: tip_cache_def split: option.splits if_splits)

lemma non_tip_cache_mem:
  "(L, q) \<in> set (non_tip_cache t) \<longleftrightarrow>
     q \<in> set (postorder_paths t) \<and> name_at t q = Some L \<and> \<not> is_tip_at t q"
  by (auto simp: non_tip_cache_def split: option.splits if_splits)

lemma find_Some_node:
  assumes "find t (Some L) = Inr p"
  shows "\<exists>n. node_at t p = Some n \<and> name n = Some L"
proof -
  from assms have "map_of (tip_cache t) L = Some p \<or> map_of (non_tip_cache t) L = Some p"
    by (auto simp: find_def create_caches_def split: if_splits option.splits)
  then have "(L, p) \<in> set (tip_cache t) \<or> (L, p) \<in> set (non_tip_cache t)"
    by (auto dest: map_of_SomeD)
  then have "name_at t p = Some L" by (auto simp: tip_cache_mem non_tip_cache_mem)
  then show ?thesis by (rule name_at_Some)
qed

lemma reorder_all_append:
  "reorder_all (xs @ ys) t =
     (case reorder_all xs t of Inl e \<Rightarrow> Inl e | Inr t' \<Rightarrow> reorder_all ys t')"
  by (induction xs arbitrary: t) (auto split: sum.splits)

lemma reorder_all_children_fixed:
  "(\<And>c. c \<in> set cs \<Longrightarrow> reorder_all (preorder c) t = Inr t) \<Longrightarrow>
   reorder_all (concat (map preorder cs)) t = Inr t"
  by (induction cs) (auto simp: reorder_all_append)
section \<open>A pass of the order restorer\<close>

text \<open>
  \<open>gather g t\<close> collects \<open>g\<close> over the nodes of \<open>t\<close> in postorder, the order in which
  \<^verbatim>\<open>create_caches\<close> visits them.  \<open>marks_of t\<close> lists, for every named node, whether it
  is a tip, and its name: the keys of the tip cache are the names marked as tips, the
  keys of the other cache the names marked as nodes with children.
\<close>

fun gather :: "(tree \<Rightarrow> 'a list) \<Rightarrow> tree \<Rightarrow> 'a list" where
  "gather g (Node a b cs) = concat (map (gather g) cs) @ g (Node a b cs)"

definition mark :: "tree \<Rightarrow> (bool \<times> string) list" where
  "mark n = (case name n of None \<Rightarrow> [] | Some s \<Rightarrow> [(children n = [], s)])"

definition marks_of :: "tree \<Rightarrow> (bool \<times> string) list" where
  "marks_of t = gather mark t"

text \<open>
  The labels of a tree in the sense of the data model: the names that are present on
  its nodes with children.
\<close>

fun inner_labels :: "tree \<Rightarrow> string list" where
  "inner_labels (Node a b cs) =
     concat (map inner_labels cs) @
     (case a of None \<Rightarrow> [] | Some s \<Rightarrow> if cs = [] then [] else [s])"

lemma scan_from:
  "concat (map (\<lambda>p. case node_at (Node a b (xs @ cs)) p of None \<Rightarrow> [] | Some n \<Rightarrow> g n)
             (postorder_from (length xs) cs)) =
   concat (map (\<lambda>c. concat (map (\<lambda>p. case node_at c p of None \<Rightarrow> [] | Some n \<Rightarrow> g n)
                                  (postorder_paths c))) cs)"
proof (induction cs arbitrary: xs)
  case Nil
  then show ?case by simp
next
  case (Cons c cs)
  have "concat (map (\<lambda>p. case node_at (Node a b ((xs @ [c]) @ cs)) p of None \<Rightarrow> [] | Some n \<Rightarrow> g n)
             (postorder_from (length (xs @ [c])) cs)) =
   concat (map (\<lambda>c. concat (map (\<lambda>p. case node_at c p of None \<Rightarrow> [] | Some n \<Rightarrow> g n)
                                  (postorder_paths c))) cs)"
    by (rule Cons.IH)
  then show ?case by (simp add: o_def nth_append)
qed

lemma scan_postorder:
  "concat (map (\<lambda>p. case node_at t p of None \<Rightarrow> [] | Some n \<Rightarrow> g n) (postorder_paths t)) =
   gather g t"
proof (induction t)
  case (Node a b cs)
  have "concat (map (\<lambda>p. case node_at (Node a b ([] @ cs)) p of None \<Rightarrow> [] | Some n \<Rightarrow> g n)
             (postorder_from (length ([]::tree list)) cs)) =
   concat (map (\<lambda>c. concat (map (\<lambda>p. case node_at c p of None \<Rightarrow> [] | Some n \<Rightarrow> g n)
                                  (postorder_paths c))) cs)"
    by (rule scan_from)
  moreover have "map (\<lambda>c. concat (map (\<lambda>p. case node_at c p of None \<Rightarrow> [] | Some n \<Rightarrow> g n)
                                  (postorder_paths c))) cs = map (gather g) cs"
    using Node by simp
  ultimately show ?case by simp
qed

lemma gather_map_filter:
  "gather (\<lambda>n. map h (filter P (g n))) t = map h (filter P (gather g t))"
  by (induction t) (simp add: map_concat filter_concat o_def cong: map_cong)

lemma tip_cache_keys: "map fst (tip_cache t) = map snd (filter fst (marks_of t))"
proof -
  have "map fst (tip_cache t) =
     concat (map (\<lambda>p. case node_at t p of None \<Rightarrow> [] | Some n \<Rightarrow> map snd (filter fst (mark n)))
              (postorder_paths t))"
    unfolding tip_cache_def map_concat map_map o_def
    by (rule arg_cong[where f = concat], rule map_cong)
       (auto simp: name_at_def is_tip_at_def mark_def split: option.splits)
  then show ?thesis by (simp add: scan_postorder gather_map_filter marks_of_def)
qed

lemma non_tip_cache_keys:
  "map fst (non_tip_cache t) = map snd (filter (\<lambda>x. \<not> fst x) (marks_of t))"
proof -
  have "map fst (non_tip_cache t) =
     concat (map (\<lambda>p. case node_at t p of None \<Rightarrow> []
                       | Some n \<Rightarrow> map snd (filter (\<lambda>x. \<not> fst x) (mark n)))
              (postorder_paths t))"
    unfolding non_tip_cache_def map_concat map_map o_def
    by (rule arg_cong[where f = concat], rule map_cong)
       (auto simp: name_at_def is_tip_at_def mark_def split: option.splits)
  then show ?thesis by (simp add: scan_postorder gather_map_filter marks_of_def)
qed

lemma inner_labels_marks: "inner_labels t = map snd (filter (\<lambda>x. \<not> fst x) (marks_of t))"
  unfolding marks_of_def
  by (induction t) (auto simp: map_concat filter_concat o_def mark_def split: option.splits cong: map_cong)

lemma marks_of_Node:
  "marks_of (Node a b cs) = concat (map marks_of cs) @ mark (Node a b cs)"
  by (simp add: marks_of_def[abs_def])

lemma distinct_marks_split:
  "distinct (map snd (filter fst xs)) \<Longrightarrow> distinct (map snd (filter (\<lambda>x. \<not> fst x) xs)) \<Longrightarrow>
   distinct (xs :: (bool \<times> 'a) list)"
proof (induction xs)
  case Nil
  then show ?case by simp
next
  case (Cons x xs)
  obtain u v where x: "x = (u, v)" by (cases x)
  show ?case
  proof (cases u)
    case True
    with Cons x have "v \<notin> snd ` set (filter fst xs)" and "distinct xs" by auto
    then have "(True, v) \<notin> set xs" by force
    then show ?thesis using \<open>distinct xs\<close> x True by simp
  next
    case False
    with Cons x have "v \<notin> snd ` set (filter (\<lambda>x. \<not> fst x) xs)" and "distinct xs" by auto
    then have "(False, v) \<notin> set xs" by force
    then show ?thesis using \<open>distinct xs\<close> x False by simp
  qed
qed

lemma distinct_marks_tips: "distinct (xs :: (bool \<times> 'a) list) \<Longrightarrow> distinct (map snd (filter fst xs))"
  by (induction xs) force+

lemma distinct_marks_inner:
  "distinct (xs :: (bool \<times> 'a) list) \<Longrightarrow> distinct (map snd (filter (\<lambda>x. \<not> fst x) xs))"
  by (induction xs) force+

lemma mark_shape:
  "(cs = []) = (cs' = []) \<Longrightarrow> mark (Node a b cs) = mark (Node a b cs')"
  by (simp add: mark_def split: option.splits)

lemma marks_of_self: "set (mark n) \<subseteq> set (marks_of n)"
  by (cases n) (simp add: marks_of_Node)

lemma marks_of_node_at_subset:
  "node_at t p = Some n \<Longrightarrow> set (marks_of n) \<subseteq> set (marks_of t)"
proof (induction p arbitrary: t)
  case Nil
  then show ?case by simp
next
  case (Cons i p)
  obtain x y cs where t: "t = Node x y cs" by (cases t)
  from Cons.prems t have i: "i < length cs" and at: "node_at (cs ! i) p = Some n"
    by (auto split: if_splits)
  have "cs ! i \<in> set cs" using i by simp
  then have "set (marks_of (cs ! i)) \<subseteq> set (marks_of t)"
    using t by (auto simp: marks_of_Node)
  with Cons.IH[OF at] show ?case by auto
qed

lemma distinct_marks_of_node_at:
  "distinct (marks_of t) \<Longrightarrow> node_at t p = Some n \<Longrightarrow> distinct (marks_of n)"
proof (induction p arbitrary: t)
  case Nil
  then show ?case by simp
next
  case (Cons i p)
  obtain x y cs where t: "t = Node x y cs" by (cases t)
  from Cons.prems t have i: "i < length cs" and at: "node_at (cs ! i) p = Some n"
    by (auto split: if_splits)
  have d: "distinct (concat (map marks_of cs))" using Cons.prems(1) t by (simp add: marks_of_Node)
  have "distinct (marks_of (cs ! i))" using distinct_concat_nth[OF d, of i] i by simp
  from Cons.IH[OF this at] show ?case .
qed

lemma marks_of_replace_at:
  "node_at t p = Some n \<Longrightarrow> distinct (marks_of t) \<Longrightarrow> distinct (marks_of new) \<Longrightarrow>
   set (marks_of new) \<subseteq> set (marks_of n) \<Longrightarrow>
   distinct (marks_of (replace_at t p new)) \<and>
   set (marks_of (replace_at t p new)) \<subseteq> set (marks_of t)"
proof (induction p arbitrary: t)
  case Nil
  then show ?case by simp
next
  case (Cons i p)
  obtain x y cs where t: "t = Node x y cs" by (cases t)
  from Cons.prems t have i: "i < length cs" and at: "node_at (cs ! i) p = Some n"
    by (auto split: if_splits)
  let ?xss = "map marks_of cs"
  let ?c = "replace_at (cs ! i) p new"
  have d: "distinct (concat ?xss)" and dm: "distinct (mark (Node x y cs))"
    and x: "set (concat ?xss) \<inter> set (mark (Node x y cs)) = {}"
    using Cons.prems(2) t by (auto simp: marks_of_Node)
  have di: "distinct (marks_of (cs ! i))" using distinct_concat_nth[OF d, of i] i by simp
  from Cons.IH[OF at di Cons.prems(3,4)]
  have c: "distinct (marks_of ?c)" "set (marks_of ?c) \<subseteq> set (marks_of (cs ! i))" by auto
  have upd: "map marks_of (cs[i := ?c]) = ?xss[i := marks_of ?c]" by (simp add: map_update)
  have s: "set (marks_of ?c) \<subseteq> set (?xss ! i)" using c(2) i by simp
  have il: "i < length ?xss" using i by simp
  have d': "distinct (concat (?xss[i := marks_of ?c]))"
    using distinct_concat_update[OF d il c(1) s] .
  have s': "set (concat (?xss[i := marks_of ?c])) \<subseteq> set (concat ?xss)"
    using set_concat_update[OF il s] .
  have mk: "mark (Node x y (cs[i := ?c])) = mark (Node x y cs)"
    by (rule mark_shape) simp
  have r: "marks_of (replace_at t (i # p) new) =
             concat (?xss[i := marks_of ?c]) @ mark (Node x y cs)"
    using t i by (simp add: marks_of_Node upd mk)
  have "distinct (concat (?xss[i := marks_of ?c]) @ mark (Node x y cs))"
    using d' dm s' x by auto
  moreover have "set (concat (?xss[i := marks_of ?c]) @ mark (Node x y cs)) \<subseteq> set (marks_of t)"
    using s' t by (auto simp: marks_of_Node)
  ultimately show ?case unfolding r by simp
qed

lemma marks_of_select:
  assumes d: "distinct (marks_of n)" and o: "distinct order"
    and r: "\<forall>k \<in> set order. k < length (children n)" and ne: "order \<noteq> []"
  shows "distinct (marks_of (Node (name n) (blen n) (map ((!) (children n)) order))) \<and>
         set (marks_of (Node (name n) (blen n) (map ((!) (children n)) order))) \<subseteq> set (marks_of n)"
proof -
  let ?new = "map ((!) (children n)) order"
  let ?xss = "map marks_of (children n)"
  have cn: "children n \<noteq> []" using r ne by (cases order) auto
  have nn: "marks_of n = concat ?xss @ mark n" by (cases n) (simp add: marks_of_Node)
  have dx: "distinct (concat ?xss)" and dm: "distinct (mark n)"
    and nx: "set (concat ?xss) \<inter> set (mark n) = {}"
    using d nn by auto
  have r': "\<forall>k \<in> set order. k < length ?xss" using r by simp
  from distinct_concat_select[OF dx o r']
  have sel: "distinct (concat (map ((!) ?xss) order))"
    "set (concat (map ((!) ?xss) order)) \<subseteq> set (concat ?xss)" by auto
  have eq: "map marks_of ?new = map ((!) ?xss) order"
    using r by (simp add: map_equality_iff)
  have mk: "mark (Node (name n) (blen n) ?new) = mark n"
    using cn ne by (cases n) (simp add: mark_def split: option.splits)
  have "marks_of (Node (name n) (blen n) ?new) = concat (map ((!) ?xss) order) @ mark n"
    by (simp only: marks_of_Node eq mk)
  then show ?thesis using sel dm nx nn by auto
qed

text \<open>Looking up the label of a node with children.\<close>

lemma create_caches_marks:
  "distinct (marks_of t) \<Longrightarrow> create_caches t = Inr (tip_cache t, non_tip_cache t)"
proof -
  assume "distinct (marks_of t)"
  then have "distinct (map snd (filter fst (marks_of t)))" by (rule distinct_marks_tips)
  then have "distinct (map fst (tip_cache t))" by (simp only: tip_cache_keys)
  then show ?thesis by (simp add: create_caches_def)
qed

lemma tip_label_mark:
  "L \<in> fst ` set (tip_cache t) \<longleftrightarrow> (True, L) \<in> set (marks_of t)"
proof -
  have "fst ` set (tip_cache t) = set (map fst (tip_cache t))" by simp
  also have "\<dots> = set (map snd (filter fst (marks_of t)))" by (simp only: tip_cache_keys)
  also have "\<dots> = snd ` {x \<in> set (marks_of t). fst x}" by simp
  finally have e: "fst ` set (tip_cache t) = snd ` {x \<in> set (marks_of t). fst x}" .
  show ?thesis
  proof
    assume "L \<in> fst ` set (tip_cache t)"
    then obtain u where "(u, L) \<in> set (marks_of t)" "u" unfolding e by auto
    then show "(True, L) \<in> set (marks_of t)" by simp
  next
    assume "(True, L) \<in> set (marks_of t)"
    then have "L \<in> snd ` {x \<in> set (marks_of t). fst x}" by force
    then show "L \<in> fst ` set (tip_cache t)" unfolding e .
  qed
qed

lemma find_inner:
  assumes d: "distinct (marks_of t)" and n: "node_at t p = Some n" and c: "children n \<noteq> []"
    and L: "name n = Some L" and nt: "(True, L) \<notin> set (marks_of t)"
  shows "find t (Some L) = Inr p"
proof -
  have cc: "create_caches t = Inr (tip_cache t, non_tip_cache t)" using create_caches_marks[OF d] .
  have none: "map_of (tip_cache t) L = None"
    using nt tip_label_mark[of L t] by (simp add: map_of_eq_None_iff)
  have "(L, p) \<in> set (non_tip_cache t)"
    using postorder_paths_mem[OF n] n c L
    by (simp add: non_tip_cache_mem name_at_def is_tip_at_def)
  moreover have "distinct (map fst (non_tip_cache t))"
    using distinct_marks_inner[OF d] by (simp only: non_tip_cache_keys)
  ultimately have "map_of (non_tip_cache t) L = Some p" by (rule map_of_is_SomeI[rotated])
  then show ?thesis using cc none by (simp add: find_def)
qed

lemma find_inner_success:
  assumes f: "find t (Some L) = Inr p" and n: "node_at t p = Some n" and c: "children n \<noteq> []"
  shows "distinct (map fst (tip_cache t)) \<and> (True, L) \<notin> set (marks_of t)"
proof -
  from f have dk: "distinct (map fst (tip_cache t))"
    by (auto simp: find_def create_caches_def split: if_splits)
  have "map_of (tip_cache t) L = None"
  proof (cases "map_of (tip_cache t) L")
    case None
    then show ?thesis .
  next
    case (Some q)
    then have "q = p" using f dk by (simp add: find_def create_caches_def)
    moreover have "(L, q) \<in> set (tip_cache t)" using Some by (rule map_of_SomeD)
    ultimately have "is_tip_at t p" by (simp add: tip_cache_mem)
    then show ?thesis using n c by (simp add: is_tip_at_def)
  qed
  then have "L \<notin> fst ` set (tip_cache t)" by (simp add: map_of_eq_None_iff)
  then show ?thesis using dk tip_label_mark[of L t] by simp
qed

lemma distinct_marks_of:
  "distinct (map fst (tip_cache t)) \<Longrightarrow> distinct (inner_labels t) \<Longrightarrow> distinct (marks_of t)"
proof (rule distinct_marks_split)
  assume "distinct (map fst (tip_cache t))"
  then show "distinct (map snd (filter fst (marks_of t)))" by (simp only: tip_cache_keys)
next
  assume "distinct (inner_labels t)"
  then show "distinct (map snd (filter (\<lambda>x. \<not> fst x) (marks_of t)))"
    by (simp only: inner_labels_marks)
qed

lemma name2child_cong:
  "child_names m = child_names m' \<Longrightarrow> name2child m nm = name2child m' nm"
proof -
  assume e: "child_names m = child_names m'"
  then have len: "length (children m) = length (children m')"
    unfolding child_names_def by (rule map_eq_imp_length_eq)
  have "\<And>i. i < length (children m) \<Longrightarrow> name (children m ! i) = name (children m' ! i)"
  proof -
    fix i assume i: "i < length (children m)"
    then have "child_names m ! i = name (children m ! i)" by (simp add: child_names_def)
    moreover have "child_names m' ! i = name (children m' ! i)"
      using i len by (simp add: child_names_def)
    ultimately show "name (children m ! i) = name (children m' ! i)" using e by simp
  qed
  then have "filter (\<lambda>i. name (children m ! i) = nm) (rev [0..<length (children m)]) =
             filter (\<lambda>i. name (children m' ! i) = nm) (rev [0..<length (children m)])"
    by (intro filter_cong) auto
  then show ?thesis using len by (simp add: name2child_def)
qed

lemma append_children_cong:
  "child_names m = child_names m' \<Longrightarrow> append_children m nms acc = append_children m' nms acc"
proof (induction nms arbitrary: acc)
  case Nil
  then show ?case by simp
next
  case (Cons nm nms)
  have "name2child m nm = name2child m' nm" using name2child_cong[OF Cons.prems] .
  then show ?case using Cons.IH[OF Cons.prems] by (simp split: option.splits)
qed

lemma name2child_distinct:
  assumes d: "distinct (child_names m)" and k: "k < length (children m)"
  shows "name2child m (child_names m ! k) = Some k"
proof -
  have len: "length (child_names m) = length (children m)" by (simp add: child_names_def)
  have "child_names m ! k \<in> set (child_names m)" using k len by simp
  then obtain i where i: "name2child m (child_names m ! k) = Some i"
    using name2child_None[of m "child_names m ! k"]
    by (cases "name2child m (child_names m ! k)") auto
  from name2child_Some[OF i] have il: "i < length (children m)"
    and "name (children m ! i) = child_names m ! k" by auto
  then have "child_names m ! i = child_names m ! k" by (simp add: child_names_def)
  then have "i = k" using d il k len by (simp add: nth_eq_iff_index_eq)
  then show ?thesis using i by simp
qed

lemma append_children_success:
  assumes "append_children n nms [] = Inr order"
  shows "distinct order \<and> (\<forall>i \<in> set order. i < length (children n)) \<and>
         set order = {i. \<exists>nm \<in> set nms. name2child n nm = Some i}"
proof -
  have sub: "set nms \<subseteq> set (child_names n)"
  proof (rule ccontr)
    assume "\<not> set nms \<subseteq> set (child_names n)"
    from append_children_fail[OF this, of "[]"] assms show False by simp
  qed
  from append_children_ok[OF sub, of "[]"] assms
  have o: "distinct order" "set order = {i. \<exists>nm \<in> set nms. name2child n nm = Some i}" by auto
  have "\<forall>i \<in> set order. i < length (children n)" using o(2) name2child_Some by auto
  then show ?thesis using o by simp
qed

lemma append_children_map:
  assumes K: "\<And>nm i. nm \<in> set nms \<Longrightarrow> name2child n nm = Some i \<Longrightarrow> name2child n1 nm = Some (f i)"
    and inj: "inj_on f (set acc \<union> {i. \<exists>nm \<in> set nms. name2child n nm = Some i})"
    and r: "append_children n nms acc = Inr final"
  shows "append_children n1 nms (map f acc) = Inr (map f final)"
  using assms
proof (induction nms arbitrary: acc)
  case Nil
  then show ?case by simp
next
  case (Cons nm nms)
  from Cons.prems(3) obtain i where i: "name2child n nm = Some i"
    by (cases "name2child n nm") auto
  let ?acc = "filter (\<lambda>j. j \<noteq> i) acc @ [i]"
  have r': "append_children n nms ?acc = Inr final" using Cons.prems(3) i by simp
  have K': "\<And>nm i. nm \<in> set nms \<Longrightarrow> name2child n nm = Some i \<Longrightarrow> name2child n1 nm = Some (f i)"
    using Cons.prems(1) by simp
  have sub: "set ?acc \<union> {i. \<exists>nm \<in> set nms. name2child n nm = Some i}
               \<subseteq> set acc \<union> {i. \<exists>nm' \<in> set (nm # nms). name2child n nm' = Some i}"
    using i by auto
  have inj': "inj_on f (set ?acc \<union> {i. \<exists>nm \<in> set nms. name2child n nm = Some i})"
    using inj_on_subset[OF Cons.prems(2) sub] .
  from Cons.IH[OF K' inj' r']
  have ih: "append_children n1 nms (map f ?acc) = Inr (map f final)" .
  have fi: "name2child n1 nm = Some (f i)" using Cons.prems(1)[of nm i] i by simp
  have "\<And>j. j \<in> set acc \<Longrightarrow> (f j \<noteq> f i) = (j \<noteq> i)"
  proof -
    fix j assume "j \<in> set acc"
    then have "j \<in> set acc \<union> {i. \<exists>nm' \<in> set (nm # nms). name2child n nm' = Some i}" by simp
    moreover have "i \<in> set acc \<union> {i. \<exists>nm' \<in> set (nm # nms). name2child n nm' = Some i}"
      using i by auto
    ultimately show "(f j \<noteq> f i) = (j \<noteq> i)" using Cons.prems(2) by (simp add: inj_on_eq_iff)
  qed
  then have "filter (\<lambda>j. j \<noteq> f i) (map f acc) = map f (filter (\<lambda>j. j \<noteq> i) acc)"
    by (simp add: filter_map o_def cong: filter_cong)
  then have "map f ?acc = filter (\<lambda>j. j \<noteq> f i) (map f acc) @ [f i]" by simp
  then show ?case using ih fi by simp
qed

text \<open>
  After a round the node found has children with pairwise distinct names, the names of
  the source node's children, and the same round on it changes nothing.
\<close>

lemma round_fixed:
  assumes r: "append_children n nms [] = Inr order"
  shows "distinct (child_names (Node a b (map ((!) (children n)) order))) \<and>
         set (child_names (Node a b (map ((!) (children n)) order))) = set nms \<and>
         append_children (Node a b (map ((!) (children n)) order)) nms [] = Inr [0..<length order]"
proof -
  let ?n1 = "Node a b (map ((!) (children n)) order)"
  from append_children_success[OF r] have d: "distinct order"
    and rng: "\<forall>i \<in> set order. i < length (children n)"
    and so: "set order = {i. \<exists>nm \<in> set nms. name2child n nm = Some i}" by auto
  have cn: "child_names ?n1 = map (\<lambda>i. name (children n ! i)) order"
    by (simp add: child_names_def)
  have key: "\<And>i. i \<in> set order \<Longrightarrow> name2child n (name (children n ! i)) = Some i"
  proof -
    fix i assume "i \<in> set order"
    then obtain nm where nm: "nm \<in> set nms" "name2child n nm = Some i" using so by auto
    from name2child_Some[OF nm(2)] have "name (children n ! i) = nm" by simp
    then show "name2child n (name (children n ! i)) = Some i" using nm(2) by simp
  qed
  have dn: "distinct (child_names ?n1)"
    unfolding cn distinct_map
  proof
    show "distinct order" by (rule d)
    show "inj_on (\<lambda>i. name (children n ! i)) (set order)"
    proof (rule inj_onI)
      fix i j assume i: "i \<in> set order" and j: "j \<in> set order"
        and e: "name (children n ! i) = name (children n ! j)"
      have "Some i = name2child n (name (children n ! i))" using key[OF i] by (rule sym)
      also have "\<dots> = name2child n (name (children n ! j))" by (rule arg_cong[OF e])
      also have "\<dots> = Some j" using key[OF j] .
      finally show "i = j" by simp
    qed
  qed
  have sn: "set (child_names ?n1) = set nms"
  proof
    show "set (child_names ?n1) \<subseteq> set nms"
    proof
      fix x assume "x \<in> set (child_names ?n1)"
      then obtain i where i: "i \<in> set order" "x = name (children n ! i)" unfolding cn by auto
      then obtain nm where nm: "nm \<in> set nms" "name2child n nm = Some i" using so by auto
      from name2child_Some[OF nm(2)] have "name (children n ! i) = nm" by simp
      then show "x \<in> set nms" using i nm(1) by simp
    qed
    show "set nms \<subseteq> set (child_names ?n1)"
    proof
      fix nm assume nm: "nm \<in> set nms"
      have "nm \<in> set (child_names n)"
      proof (rule ccontr)
        assume "nm \<notin> set (child_names n)"
        then have "\<not> set nms \<subseteq> set (child_names n)" using nm by auto
        from append_children_fail[OF this, of "[]"] r show False by simp
      qed
      then obtain i where i: "name2child n nm = Some i"
        using name2child_None[of n nm] by (cases "name2child n nm") auto
      then have "i \<in> set order" using so nm by auto
      moreover have "name (children n ! i) = nm" using name2child_Some[OF i] by simp
      ultimately have "nm \<in> (\<lambda>i. name (children n ! i)) ` set order" by blast
      then show "nm \<in> set (child_names ?n1)" unfolding cn by simp
    qed
  qed
  define f where "f = inv_into {..<length order} ((!) order)"
  have inj: "inj_on ((!) order) {..<length order}"
    using d by (simp add: inj_on_nth)
  have fk: "\<And>k. k < length order \<Longrightarrow> f (order ! k) = k"
    unfolding f_def using inj by (simp add: inv_into_f_f)
  have injf: "inj_on f (set order)"
  proof (rule inj_onI)
    fix x y assume "x \<in> set order" "y \<in> set order" "f x = f y"
    then obtain k l where "k < length order" "x = order ! k" "l < length order" "y = order ! l"
      by (auto simp: in_set_conv_nth)
    then show "x = y" using fk \<open>f x = f y\<close> by simp
  qed
  have K: "\<And>nm i. nm \<in> set nms \<Longrightarrow> name2child n nm = Some i \<Longrightarrow> name2child ?n1 nm = Some (f i)"
  proof -
    fix nm i assume nm: "nm \<in> set nms" and i: "name2child n nm = Some i"
    then have "i \<in> set order" using so by auto
    then obtain k where k: "k < length order" "order ! k = i" by (auto simp: in_set_conv_nth)
    have kl: "k < length (children ?n1)" using k by simp
    have "child_names ?n1 ! k = name (children n ! i)" using k unfolding cn by simp
    also have "\<dots> = nm" using name2child_Some[OF i] by simp
    finally have "child_names ?n1 ! k = nm" .
    then have "name2child ?n1 nm = Some k" using name2child_distinct[OF dn kl] by simp
    moreover have "f i = k" using fk[OF k(1)] k(2) by simp
    ultimately show "name2child ?n1 nm = Some (f i)" by simp
  qed
  have inj': "inj_on f (set [] \<union> {i. \<exists>nm \<in> set nms. name2child n nm = Some i})"
    using injf so by simp
  from append_children_map[OF K inj' r]
  have "append_children ?n1 nms [] = Inr (map f order)" by simp
  moreover have "map f order = [0..<length order]"
    by (rule nth_equalityI) (simp_all add: fk)
  ultimately show ?thesis using dn sn by simp
qed

lemma reorder_node_round:
  assumes d: "distinct (marks_of t)" and n: "node_at t p = Some n" and nm: "name n = name s"
    and cs: "children s \<noteq> []" and r: "reorder_node t s = Inr t1"
  shows "\<exists>L order. name s = Some L \<and> L \<noteq> [] \<and> (True, L) \<notin> set (marks_of t) \<and>
           children n \<noteq> [] \<and> append_children n (child_names s) [] = Inr order \<and>
           t1 = replace_at t p (Node (name n) (blen n) (map ((!) (children n)) order))"
proof -
  from r obtain L where L: "name s = Some L" "L \<noteq> []"
    by (cases "name s") (auto simp: reorder_node_def split: if_splits)
  from r L obtain q where q: "find t (Some L) = Inr q"
    by (cases "find t (Some L)") (auto simp: reorder_node_def)
  from find_Some_node[OF q] obtain m where m: "node_at t q = Some m" "name m = Some L" by auto
  from r L q m obtain order where o: "append_children m (child_names s) [] = Inr order"
     and t1: "t1 = set_children t q (map ((!) (children m)) order)"
    by (cases "append_children m (map name (children s)) []")
       (auto simp: reorder_node_def child_names_def)
  have mc: "children m \<noteq> []"
  proof
    assume e: "children m = []"
    obtain c rest where "children s = c # rest" using cs by (cases "children s") auto
    then have "child_names s = name c # map name rest" by (simp add: child_names_def)
    moreover have "name2child m (name c) = None" using e by (simp add: name2child_def)
    ultimately show False using o by simp
  qed
  from find_inner_success[OF q m(1) mc] have nt: "(True, L) \<notin> set (marks_of t)" by simp
  have nc: "children n \<noteq> []"
  proof
    assume "children n = []"
    then have "mark n = [(True, L)]" using nm L by (simp add: mark_def)
    then have "(True, L) \<in> set (marks_of n)" using marks_of_self[of n] by auto
    then show False using marks_of_node_at_subset[OF n] nt by auto
  qed
  have nL: "name n = Some L" using nm L by simp
  have "find t (Some L) = Inr p" using find_inner[OF d n nc nL nt] .
  then have qp: "q = p" using q by simp
  then have mn: "m = n" using m(1) n by simp
  have "t1 = replace_at t p (Node (name n) (blen n) (map ((!) (children n)) order))"
    using t1 set_children_replace[OF n] qp mn by simp
  then show ?thesis using L nt nc o mn by blast
qed

text \<open>
  A node of the copy is settled for a source node when, wherever the source has children,
  the source node is labelled, a round at the node changes nothing, and the child that
  carries the name of a source child with children is settled for that child.  A pass
  over a settled node changes nothing, and a successful pass settles the node it starts
  at.
\<close>

fun settled :: "tree \<Rightarrow> tree \<Rightarrow> bool" where
  "settled (Node a b cs) n =
     (cs = [] \<or>
      (a \<noteq> None \<and> a \<noteq> Some [] \<and> children n \<noteq> [] \<and>
       append_children n (map name cs) [] = Inr [0..<length (children n)] \<and>
       (\<forall>c \<in> set cs. children c \<noteq> [] \<longrightarrow>
          (case name2child n (name c) of
             None \<Rightarrow> False
           | Some k \<Rightarrow> settled c (children n ! k)))))"

lemma settled_named: "settled c x \<Longrightarrow> children c \<noteq> [] \<Longrightarrow> name c \<noteq> None"
  by (cases c) auto

lemma inner_labels_child:
  "c \<in> set cs \<Longrightarrow> set (inner_labels c) \<subseteq> set (inner_labels (Node a b cs))"
  by auto

lemma inner_labels_own:
  "children c \<noteq> [] \<Longrightarrow> name c = Some L \<Longrightarrow> L \<in> set (inner_labels c)"
  by (cases c) auto

lemma inner_labels_tip: "children c = [] \<Longrightarrow> inner_labels c = []"
  by (cases c) (auto split: option.splits)

lemma inner_children_names:
  assumes d: "distinct (inner_labels (Node a b cs))" and i: "i < length cs" and j: "j < length cs"
    and ne: "i \<noteq> j" and ci: "children (cs ! i) \<noteq> []" and cj: "children (cs ! j) \<noteq> []"
    and ni: "name (cs ! i) \<noteq> None"
  shows "name (cs ! i) \<noteq> name (cs ! j)"
proof
  assume e: "name (cs ! i) = name (cs ! j)"
  obtain L where L: "name (cs ! i) = Some L" using ni by auto
  have Lj: "name (cs ! j) = Some L" using L e by simp
  have dc: "distinct (concat (map inner_labels cs))" using d by simp
  from distinct_concat_disjoint[OF dc, of i j] i j ne
  have "set (inner_labels (cs ! i)) \<inter> set (inner_labels (cs ! j)) = {}" by simp
  moreover have "L \<in> set (inner_labels (cs ! i))" using inner_labels_own[OF ci L] .
  moreover have "L \<in> set (inner_labels (cs ! j))" using inner_labels_own[OF cj Lj] .
  ultimately show False by auto
qed

lemma settled_fixed:
  "distinct (marks_of t) \<Longrightarrow> node_at t p = Some n \<Longrightarrow> name n = name s \<Longrightarrow> settled s n \<Longrightarrow>
   (\<forall>L \<in> set (inner_labels s). (True, L) \<notin> set (marks_of t)) \<Longrightarrow>
   reorder_all (preorder s) t = Inr t"
proof (induction s arbitrary: p n)
  case (Node a b cs)
  show ?case
  proof (cases "cs = []")
    case True
    then show ?thesis by simp
  next
    case False
    with Node.prems(4) obtain L where L: "a = Some L" "L \<noteq> []"
      and nc: "children n \<noteq> []"
      and ap: "append_children n (map name cs) [] = Inr [0..<length (children n)]"
      and all: "\<forall>c \<in> set cs. children c \<noteq> [] \<longrightarrow>
                  (case name2child n (name c) of None \<Rightarrow> False
                   | Some k \<Rightarrow> settled c (children n ! k))"
      by (cases a) auto
    have "L \<in> set (inner_labels (Node a b cs))" using L False by simp
    then have nt: "(True, L) \<notin> set (marks_of t)" using Node.prems(5) by blast
    have nL: "name n = Some L" using Node.prems(3) L by simp
    have f: "find t (Some L) = Inr p" using find_inner[OF Node.prems(1,2) nc nL nt] .
    have e1: "reorder_node t (Node a b cs) =
        Inr (set_children t p (map ((!) (children n)) [0..<length (children n)]))"
      using f L Node.prems(2) ap by (simp add: reorder_node_def)
    have e2: "map ((!) (children n)) [0..<length (children n)] = children n" by (rule map_nth)
    have e3: "set_children t p (children n) = replace_at t p (Node (name n) (blen n) (children n))"
      using set_children_replace[OF Node.prems(2)] .
    have e4: "Node (name n) (blen n) (children n) = n" by simp
    have step: "reorder_node t (Node a b cs) = Inr t"
      unfolding e1 e2 e3 e4 using replace_at_same[OF Node.prems(2)] by simp
    have "\<And>c. c \<in> set cs \<Longrightarrow> reorder_all (preorder c) t = Inr t"
    proof -
      fix c assume c: "c \<in> set cs"
      show "reorder_all (preorder c) t = Inr t"
      proof (cases "children c = []")
        case True
        then have "preorder c = [c]" by (cases c) simp
        then show ?thesis using True by simp
      next
        case cne: False
        with all c obtain k where k: "name2child n (name c) = Some k"
          and st: "settled c (children n ! k)"
          by (cases "name2child n (name c)") auto
        from name2child_Some[OF k] have kl: "k < length (children n)"
          and kn: "name (children n ! k) = name c" by auto
        have at: "node_at t (p @ [k]) = Some (children n ! k)"
          using Node.prems(2) kl by (simp add: node_at_snoc)
        have lab: "\<forall>L \<in> set (inner_labels c). (True, L) \<notin> set (marks_of t)"
          using Node.prems(5) inner_labels_child[OF c, of a b] by blast
        from Node.IH[OF c Node.prems(1) at kn st lab] show ?thesis .
      qed
    qed
    from reorder_all_children_fixed[OF this]
    have "reorder_all (concat (map preorder cs)) t = Inr t" .
    then show ?thesis using step False by simp
  qed
qed

lemma pass_settles:
  "distinct (inner_labels s) \<Longrightarrow> distinct (marks_of t) \<Longrightarrow> node_at t p = Some n \<Longrightarrow>
   name n = name s \<Longrightarrow> reorder_all (preorder s) t = Inr t' \<Longrightarrow>
   \<exists>n'. t' = replace_at t p n' \<and> name n' = name s \<and> settled s n' \<and>
        distinct (marks_of n') \<and> set (marks_of n') \<subseteq> set (marks_of n) \<and>
        (\<forall>L \<in> set (inner_labels s). (True, L) \<notin> set (marks_of t'))"
proof (induction s arbitrary: t p n t')
  case (Node a b cs)
  let ?s = "Node a b cs"
  show ?case
  proof (cases "cs = []")
    case True
    then have "t' = t" using Node.prems(5) by simp
    then have "t' = replace_at t p n" using replace_at_same[OF Node.prems(3)] by simp
    moreover have "distinct (marks_of n)"
      using distinct_marks_of_node_at[OF Node.prems(2,3)] .
    ultimately show ?thesis using True Node.prems(4) by auto
  next
    case False
    from Node.prems(5) False obtain t1 where
      r1: "reorder_node t ?s = Inr t1" and
      r2: "reorder_all (concat (map preorder cs)) t1 = Inr t'"
      by (auto split: sum.splits)
    have csne: "children ?s \<noteq> []" using False by simp
    from reorder_node_round[OF Node.prems(2,3,4) csne r1]
    obtain L order where L: "a = Some L" "L \<noteq> []"
      and ntL: "(True, L) \<notin> set (marks_of t)" and nc: "children n \<noteq> []"
      and ord: "append_children n (map name cs) [] = Inr order"
      and t1: "t1 = replace_at t p (Node (name n) (blen n) (map ((!) (children n)) order))"
      by (auto simp: child_names_def)
    let ?n1 = "Node (name n) (blen n) (map ((!) (children n)) order)"
    let ?Q = "\<lambda>u m c. children c \<noteq> [] \<longrightarrow>
                ((case name2child m (name c) of None \<Rightarrow> False
                  | Some k \<Rightarrow> settled c (children m ! k)) \<and>
                 (\<forall>L \<in> set (inner_labels c). (True, L) \<notin> set (marks_of u)))"
    from append_children_success[OF ord] have dord: "distinct order"
      and rng: "\<forall>i \<in> set order. i < length (children n)" by auto
    from round_fixed[OF ord, of "name n" "blen n"]
    have sn1: "set (child_names ?n1) = set (map name cs)"
      and fx: "append_children ?n1 (map name cs) [] = Inr [0..<length order]" by auto
    have one: "order \<noteq> []" using sn1 False by (auto simp: child_names_def)
    have dmn: "distinct (marks_of n)" using distinct_marks_of_node_at[OF Node.prems(2,3)] .
    from marks_of_select[OF dmn dord rng one]
    have dm1: "distinct (marks_of ?n1)" and sm1: "set (marks_of ?n1) \<subseteq> set (marks_of n)" by auto
    from marks_of_replace_at[OF Node.prems(3,2) dm1 sm1] t1
    have d1: "distinct (marks_of t1)" and s1: "set (marks_of t1) \<subseteq> set (marks_of t)" by auto
    have valid: "node_at t p \<noteq> None" using Node.prems(3) by simp
    have at1: "node_at t1 p = Some ?n1" using node_at_replace_at[OF valid] t1 by simp
    have loop: "\<And>j u m u'. j \<le> length cs \<Longrightarrow> distinct (marks_of u) \<Longrightarrow>
        node_at u p = Some m \<Longrightarrow> child_names m = child_names ?n1 \<Longrightarrow>
        (\<forall>i<j. ?Q u m (cs ! i)) \<Longrightarrow>
        reorder_all (concat (map preorder (drop j cs))) u = Inr u' \<Longrightarrow>
        \<exists>n'. u' = replace_at u p n' \<and> name n' = name m \<and>
             child_names n' = child_names ?n1 \<and>
             (\<forall>i<length cs. ?Q u' n' (cs ! i)) \<and>
             distinct (marks_of n') \<and> set (marks_of n') \<subseteq> set (marks_of m)"
    proof -
      fix j u m u'
      show "j \<le> length cs \<Longrightarrow> distinct (marks_of u) \<Longrightarrow>
        node_at u p = Some m \<Longrightarrow> child_names m = child_names ?n1 \<Longrightarrow>
        (\<forall>i<j. ?Q u m (cs ! i)) \<Longrightarrow>
        reorder_all (concat (map preorder (drop j cs))) u = Inr u' \<Longrightarrow>
        \<exists>n'. u' = replace_at u p n' \<and> name n' = name m \<and>
             child_names n' = child_names ?n1 \<and>
             (\<forall>i<length cs. ?Q u' n' (cs ! i)) \<and>
             distinct (marks_of n') \<and> set (marks_of n') \<subseteq> set (marks_of m)"
      proof (induction "length cs - j" arbitrary: j u m u')
        case 0
        then have j: "j = length cs" by simp
        then have "u' = u" using "0.prems"(6) by simp
        then have "u' = replace_at u p m" using replace_at_same[OF "0.prems"(3)] by simp
        moreover have "distinct (marks_of m)"
          using distinct_marks_of_node_at[OF "0.prems"(2,3)] .
        moreover have "\<forall>i<length cs. ?Q u' m (cs ! i)"
          using "0.prems"(5) j \<open>u' = u\<close> by simp
        ultimately show ?case using "0.prems"(4) by blast
      next
        case (Suc k)
        then have j: "j < length cs" by simp
        let ?c = "cs ! j"
        have mem: "?c \<in> set cs" using j by simp
        have dr: "drop j cs = ?c # drop (Suc j) cs" using j by (simp add: Cons_nth_drop_Suc)
        from Suc.prems(6) obtain um where
          ru: "reorder_all (preorder ?c) u = Inr um" and
          rr: "reorder_all (concat (map preorder (drop (Suc j) cs))) um = Inr u'"
          unfolding dr by (auto simp: reorder_all_append split: sum.splits)
        have kk: "k = length cs - Suc j" using Suc.hyps(2) by simp
        have sj: "Suc j \<le> length cs" using j by simp
        show ?case
        proof (cases "children ?c = []")
          case True
          then have "preorder ?c = [?c]" by (cases ?c) simp
          then have "um = u" using ru True by simp
          have st: "\<forall>i<Suc j. ?Q u m (cs ! i)"
          proof (intro allI impI)
            fix i assume "i < Suc j" and ci: "children (cs ! i) \<noteq> []"
            then have "i < j" using True by (cases "i = j") auto
            then show "(case name2child m (name (cs ! i)) of None \<Rightarrow> False
                  | Some k \<Rightarrow> settled (cs ! i) (children m ! k)) \<and>
                 (\<forall>L \<in> set (inner_labels (cs ! i)). (True, L) \<notin> set (marks_of u))"
              using Suc.prems(5) ci by simp
          qed
          from Suc.hyps(1)[OF kk sj Suc.prems(2,3,4) st] rr \<open>um = u\<close>
          show ?thesis by simp
        next
          case cne: False
          have "name ?c \<in> set (child_names m)"
            using Suc.prems(4) sn1 mem by simp
          then obtain x where x: "name2child m (name ?c) = Some x"
            using name2child_None[of m "name ?c"] by (cases "name2child m (name ?c)") auto
          from name2child_Some[OF x] have xl: "x < length (children m)"
            and xn: "name (children m ! x) = name ?c" by auto
          have atc: "node_at u (p @ [x]) = Some (children m ! x)"
            using Suc.prems(3) xl by (simp add: node_at_snoc)
          have dcs: "distinct (concat (map inner_labels cs))" using Node.prems(1) by simp
          have dsj: "distinct (inner_labels ?c)"
            using distinct_concat_nth[OF dcs, of j] j by simp
          from Node.IH[OF mem dsj Suc.prems(2) atc xn ru] obtain c' where
            c': "um = replace_at u (p @ [x]) c'" "name c' = name ?c" "settled ?c c'"
                "distinct (marks_of c')" "set (marks_of c') \<subseteq> set (marks_of (children m ! x))"
                "\<forall>L \<in> set (inner_labels ?c). (True, L) \<notin> set (marks_of um)" by blast
          let ?m' = "Node (name m) (blen m) ((children m)[x := c'])"
          have rm: "replace_at m [x] c' = ?m'" using xl by (cases m) simp
          have um: "um = replace_at u p ?m'"
            using c'(1) replace_at_append[OF Suc.prems(3), of "[x]" c'] rm by simp
          from marks_of_replace_at[OF atc Suc.prems(2) c'(4,5)] c'(1)
          have dum: "distinct (marks_of um)" and sum: "set (marks_of um) \<subseteq> set (marks_of u)"
            by auto
          have validu: "node_at u p \<noteq> None" using Suc.prems(3) by simp
          have atm: "node_at um p = Some ?m'" using node_at_replace_at[OF validu] um by simp
          have cnm: "child_names ?m' = child_names m"
          proof -
            have "map name ((children m)[x := c']) = (map name (children m))[x := name c']"
              by (simp add: map_update)
            also have "\<dots> = (map name (children m))[x := map name (children m) ! x]"
              using c'(2) xn xl by simp
            also have "\<dots> = map name (children m)" by (rule list_update_id)
            finally show ?thesis by (simp add: child_names_def)
          qed
          have cnm1: "child_names ?m' = child_names ?n1" using cnm Suc.prems(4) by simp
          have st: "\<forall>i<Suc j. ?Q um ?m' (cs ! i)"
          proof (intro allI impI)
            fix i assume i: "i < Suc j" and ci: "children (cs ! i) \<noteq> []"
            show "(case name2child ?m' (name (cs ! i)) of None \<Rightarrow> False
                  | Some k \<Rightarrow> settled (cs ! i) (children ?m' ! k)) \<and>
                 (\<forall>L \<in> set (inner_labels (cs ! i)). (True, L) \<notin> set (marks_of um))"
            proof (cases "i = j")
              case True
              have "name2child ?m' (name ?c) = Some x"
                using name2child_cong[OF cnm, of "name ?c"] x by simp
              moreover have "children ?m' ! x = c'" using xl by simp
              ultimately show ?thesis using True c'(3,6) by simp
            next
              case False
              then have ij: "i < j" using i by simp
              from Suc.prems(5) ij ci obtain y where
                y: "name2child m (name (cs ! i)) = Some y"
                and sy: "settled (cs ! i) (children m ! y)"
                and ly: "\<forall>L \<in> set (inner_labels (cs ! i)). (True, L) \<notin> set (marks_of u)"
                by (cases "name2child m (name (cs ! i))") auto
              from name2child_Some[OF y] have yn: "name (children m ! y) = name (cs ! i)" by simp
              have il: "i < length cs" using ij j by simp
              have "name (cs ! i) \<noteq> name ?c"
                using inner_children_names[OF Node.prems(1) il j False ci cne
                        settled_named[OF sy ci]] .
              then have "y \<noteq> x" using yn xn by auto
              then have "children ?m' ! y = children m ! y" by simp
              moreover have "name2child ?m' (name (cs ! i)) = Some y"
                using name2child_cong[OF cnm, of "name (cs ! i)"] y by simp
              ultimately show ?thesis using sy ly sum by auto
            qed
          qed
          from Suc.hyps(1)[OF kk sj dum atm cnm1 st rr] obtain n' where
            n': "u' = replace_at um p n'" "name n' = name ?m'"
                "child_names n' = child_names ?n1"
                "\<forall>i<length cs. ?Q u' n' (cs ! i)"
                "distinct (marks_of n')" "set (marks_of n') \<subseteq> set (marks_of ?m')" by blast
          have u': "u' = replace_at u p n'"
            using n'(1) um replace_at_twice[OF validu] by simp
          have dm: "distinct (marks_of m)"
            using distinct_marks_of_node_at[OF Suc.prems(2,3)] .
          have atx: "node_at m [x] = Some (children m ! x)" using xl by simp
          from marks_of_replace_at[OF atx dm c'(4,5)] rm
          have "set (marks_of ?m') \<subseteq> set (marks_of m)" by simp
          then have sub: "set (marks_of n') \<subseteq> set (marks_of m)" using n'(6) by auto
          have "name n' = name m" using n'(2) by simp
          then show ?thesis using u' n'(3,4,5) sub by blast
        qed
      qed
    qed
    have q0: "\<forall>i<0. ?Q t1 ?n1 (cs ! i)" by simp
    from loop[OF _ d1 at1 refl q0, of t'] r2 obtain n' where
      n': "t' = replace_at t1 p n'" "name n' = name ?n1"
          "child_names n' = child_names ?n1"
          "\<forall>i<length cs. ?Q t' n' (cs ! i)"
          "distinct (marks_of n')" "set (marks_of n') \<subseteq> set (marks_of ?n1)" by auto
    have tt: "t' = replace_at t p n'" using n'(1) t1 replace_at_twice[OF valid] by simp
    have len': "length (children n') = length order"
    proof -
      have "length (child_names n') = length (child_names ?n1)" using n'(3) by simp
      then show ?thesis by (simp add: child_names_def)
    qed
    have cne': "children n' \<noteq> []" using len' one by auto
    have ap: "append_children n' (map name cs) [] = Inr [0..<length (children n')]"
      using append_children_cong[OF n'(3), of "map name cs" "[]"] fx len' by simp
    have ch: "\<forall>c \<in> set cs. children c \<noteq> [] \<longrightarrow>
                (case name2child n' (name c) of None \<Rightarrow> False
                 | Some k \<Rightarrow> settled c (children n' ! k))"
    proof (intro ballI impI)
      fix c assume c: "c \<in> set cs" and cc: "children c \<noteq> []"
      then obtain i where i: "i < length cs" "cs ! i = c" by (auto simp: in_set_conv_nth)
      then show "case name2child n' (name c) of None \<Rightarrow> False
                 | Some k \<Rightarrow> settled c (children n' ! k)"
        using n'(4) cc by auto
    qed
    have st: "settled ?s n'" using L cne' ap ch False by simp
    have nm: "name n' = name ?s" using n'(2) Node.prems(4) by simp
    have sub: "set (marks_of n') \<subseteq> set (marks_of n)" using n'(6) sm1 by auto
    from marks_of_replace_at[OF at1 d1 n'(5,6)] n'(1)
    have st': "set (marks_of t') \<subseteq> set (marks_of t1)" by simp
    have lab: "\<forall>L' \<in> set (inner_labels ?s). (True, L') \<notin> set (marks_of t')"
    proof
      fix L' assume "L' \<in> set (inner_labels ?s)"
      then have "L' = L \<or> (\<exists>c \<in> set cs. L' \<in> set (inner_labels c))"
        using L False by auto
      then show "(True, L') \<notin> set (marks_of t')"
      proof
        assume "L' = L"
        then show ?thesis using ntL s1 st' by auto
      next
        assume "\<exists>c \<in> set cs. L' \<in> set (inner_labels c)"
        then obtain c where c: "c \<in> set cs" "L' \<in> set (inner_labels c)" by auto
        then have cc: "children c \<noteq> []" using inner_labels_tip[of c] by auto
        from c obtain i where i: "i < length cs" "cs ! i = c" by (auto simp: in_set_conv_nth)
        then show ?thesis using n'(4) cc c(2) by auto
      qed
    qed
    show ?thesis using tt nm st n'(5) sub lab by blast
  qed
qed

text \<open>
  C1.  On the tree parsed from
  \<^verbatim>\<open>(((a:1.0,b:0.8)c:2.4,(d:0.8,e:0.6)f:1.2)g:0.4,(h:0.5,i:0.7)j:1.8)k;\<close>
  rerooting above the node named c (the first child of the first child of the apex),
  with no name for the new apex, returns exactly
  \<^verbatim>\<open>((a:1.0,b:0.8)c:1.2,((d:0.8,e:0.6)f:1.2,(h:0.5,i:0.7)j:2.2)g:1.2);\<close>:
  c and g get half of c's length each, j gets the sum of the two basal lengths, and the
  old apex k is gone.
\<close>

theorem root_above_golden:
  "map_option name (node_at golden [0, 0]) = Some (Some ''c'') \<and>
   root_above golden [0, 0] None = Inr golden_cg"
  by code_simp

text \<open>
  C2 (as amended).  In a tree whose nodes other than the apex all have a branch length,
  for a node \<open>p\<close> that has a parent and is not a child of an apex with exactly two
  children, \<^verbatim>\<open>root_above\<close> succeeds: the new apex has exactly two children, each with
  length \<^verbatim>\<open>node.length / 2\<close>, so that the two lengths sum to \<^verbatim>\<open>node.length\<close>.
  At the apex it fails (the rooted-apex error when the apex has two children, attribute
  access on \<^verbatim>\<open>None\<close> otherwise), and at a child of an apex with exactly two children
  it fails too, with the not-neighbours error of the directional copy: the apex of a
  rooted tree is not a neighbour of its children there.
\<close>

theorem root_above_strictly_rooted:
  assumes ok: "lengths_ok t" and n: "node_at t p = Some n"
  shows "(p \<noteq> [] \<and> \<not> (length (children t) = 2 \<and> length p = 1) \<longrightarrow>
            (\<exists>l left right a b.
               blen n = Some l \<and>
               root_above t p nm = Inr (Node nm None [left, right]) \<and>
               blen left = Some a \<and> blen right = Some b \<and>
               a = l / 2 \<and> b = l / 2 \<and> a + b = l)) \<and>
         (p = [] \<longrightarrow>
            root_above t p nm =
              Inl (if length (children t) = 2 then CannotWalkFromRootOfRootedTree
                   else AttributeError)) \<and>
         (length (children t) = 2 \<and> length p = 1 \<longrightarrow> root_above t p nm = Inl NotNeighbors)"
proof (intro conjI impI)
  assume a: "p \<noteq> [] \<and> \<not> (length (children t) = 2 \<and> length p = 1)"
  then have pne: "p \<noteq> []" by simp
  have nrb: "\<not> (rooted_of t p = Some True \<and> position_of p = Basal)"
    using a by (cases p) (auto simp: rooted_of_def position_of_def split: if_splits)
  have nrr: "\<not> (rooted_of t p = Some True \<and> position_of p = Root)"
    using pne by (simp add: position_of_def)
  have "move_of t p n (parent_of p) = Down" using nrb by (simp add: move_of_def)
  then have "walk_ready t p n (parent_of p)" using nrr by (simp add: walk_ready_def)
  from walk_copy_succeeds[OF ok n this] obtain left
    where left: "walk_copy t p (parent_of p) = Inr left" by auto
  have p: "p = butlast p @ [last p]" using pne by simp
  obtain par where par: "node_at t (butlast p) = Some par"
    using n p node_at_snoc[of t "butlast p" "last p"] by (auto split: option.splits)
  from walk_copy_succeeds[OF ok par ready_parent[OF n pne nrb par]] obtain right
    where right: "walk_copy t (butlast p) (Some p) = Inr right" by auto
  from lengths_ok_node_at[OF ok n pne] obtain l where l: "blen n = Some l" by auto
  have "root_above t p nm =
          Inr (Node nm None [Node (name left) (Some (l / 2)) (children left),
                             Node (name right) (Some (l / 2)) (children right)])"
    using n left right l pne by (simp add: root_above_def parent_of_def)
  then show "\<exists>l left right a b.
               blen n = Some l \<and>
               root_above t p nm = Inr (Node nm None [left, right]) \<and>
               blen left = Some a \<and> blen right = Some b \<and>
               a = l / 2 \<and> b = l / 2 \<and> a + b = l"
    using l by (intro exI[of _ l] exI[of _ "Node (name left) (Some (l / 2)) (children left)"]
        exI[of _ "Node (name right) (Some (l / 2)) (children right)"] exI[of _ "l / 2"]) simp
next
  assume p: "p = []"
  then have nt: "n = t" using n by simp
  show "root_above t p nm =
          Inl (if length (children t) = 2 then CannotWalkFromRootOfRootedTree else AttributeError)"
  proof (cases "length (children t) = 2")
    case True
    have "walk_copy t [] None = Inl CannotWalkFromRootOfRootedTree"
      using True by (subst walk_copy.simps) (simp add: rooted_of_def position_of_def)
    then show ?thesis using True p by (simp add: root_above_def parent_of_def)
  next
    case False
    have "walk_ready t [] t None"
      using False by (simp add: walk_ready_def rooted_of_def position_of_def move_of_def parent_of_def)
    from walk_copy_succeeds[OF ok _ this] obtain left where "walk_copy t [] None = Inr left"
      by auto
    then show ?thesis using False p by (simp add: root_above_def parent_of_def)
  qed
next
  assume a: "length (children t) = 2 \<and> length p = 1"
  then obtain i where p: "p = [i]" by (cases p) auto
  have rb: "rooted_of t p = Some True" "position_of p = Basal"
    using a p by (auto simp: rooted_of_def position_of_def)
  from rooted_basal[OF rb n] have sib: "hd (siblings t p) = [1 - i]" using p by auto
  have "move_of t p n (Some []) = NA"
    using rb sib by (auto simp: move_of_def in_child_paths)
  then have "walk_copy t p (Some []) = Inl NotNeighbors"
    using n rb by (subst walk_copy.simps) simp
  then show "root_above t p nm = Inl NotNeighbors"
    using n p by (simp add: root_above_def parent_of_def)
qed

theorem root_above_strictly_rooted_witness:
  "lengths_ok golden \<and> node_at golden [0, 0] \<noteq> None \<and>
   (\<exists>left right. root_above golden [0, 0] None = Inr (Node None None [left, right]) \<and>
       blen left = Some (12 / 10) \<and> blen right = Some (12 / 10)) \<and>
   root_above golden [] None = Inl CannotWalkFromRootOfRootedTree \<and>
   root_above golden [1] None = Inl NotNeighbors"
proof -
  have n: "node_at golden [0, 0] =
      Some (Node (Some ''c'') (Some (24/10)) [tip ''a'' 1, tip ''b'' (8/10)])"
    by (simp add: golden_def)
  have n0: "node_at golden [] = Some golden" by simp
  have n1: "node_at golden [1] =
      Some (Node (Some ''j'') (Some (18/10)) [tip ''h'' (5/10), tip ''i'' (7/10)])"
    by (simp add: golden_def)
  have two: "length (children golden) = 2" by (simp add: golden_def)
  show ?thesis
    using root_above_strictly_rooted[OF golden_lengths_ok n, of None]
      root_above_strictly_rooted[OF golden_lengths_ok n0, of None]
      root_above_strictly_rooted[OF golden_lengths_ok n1, of None]
      golden_lengths_ok n two
    by auto
qed

text \<open>
  The claim as first stated promised success at every node that has a parent; on the
  rooted test tree the node g, a child of the apex, is refused.
\<close>

theorem root_above_basal_counterexample:
  "lengths_ok golden \<and> map_option name (node_at golden [0]) = Some (Some ''g'') \<and>
   parent_of [0] = Some [] \<and> root_above golden [0] None = Inl NotNeighbors"
  by (simp add: golden_lengths_ok) code_simp

text \<open>
  C3.  \<^verbatim>\<open>restore_rooting\<close> checks its inputs first, in this order: a source whose apex
  does not have exactly two children is refused (source not rooted); else a target whose
  apex has exactly two children is refused (target not unrooted); else differing sets of
  tip names are refused (taxa mismatch).  Each refusal is the whole outcome: no tree is
  copied, rerooted or returned.
\<close>

theorem restore_rooting_preconditions:
  "(length (children src) \<noteq> 2 \<longrightarrow> restore_rooting src trg = Inl SourceNotRooted) \<and>
   (length (children src) = 2 \<and> length (children trg) = 2 \<longrightarrow>
      restore_rooting src trg = Inl TargetNotUnrooted) \<and>
   (length (children src) = 2 \<and> length (children trg) \<noteq> 2 \<and>
    set (map name (tips src)) \<noteq> set (map name (tips trg)) \<longrightarrow>
      restore_rooting src trg = Inl TaxaMismatch)"
  by (simp add: restore_rooting_def)

theorem restore_rooting_preconditions_witness:
  "length (children unrooted3) \<noteq> 2 \<and>
   restore_rooting unrooted3 golden = Inl SourceNotRooted \<and>
   length (children golden) = 2 \<and>
   restore_rooting golden golden = Inl TargetNotUnrooted \<and>
   set (map name (tips golden)) \<noteq> set (map name (tips unrooted3)) \<and>
   restore_rooting golden unrooted3 = Inl TaxaMismatch"
proof -
  have a: "length (children unrooted3) \<noteq> 2" by (simp add: unrooted3_def)
  have b: "length (children golden) = 2" by (simp add: golden_def)
  have "Some ''c'' \<in> set (map name (tips unrooted3))"
    by (simp add: unrooted3_def tips_def tip_def)
  moreover have "Some ''c'' \<notin> set (map name (tips golden))"
    by (simp add: golden_def tips_def tip_def)
  ultimately have c: "set (map name (tips golden)) \<noteq> set (map name (tips unrooted3))"
    by metis
  show ?thesis
    using a b c restore_rooting_preconditions[of unrooted3 golden]
      restore_rooting_preconditions[of golden golden]
      restore_rooting_preconditions[of golden unrooted3]
    by simp
qed

text \<open>
  The rule of the specification for choosing the outgroup, in its words: the basal clade
  with fewer tips, and on equal counts the clade whose lexicographically smallest tip name
  is smaller.
\<close>

definition clade_names :: "tree \<Rightarrow> string list" where
  "clade_names c = concat (map (\<lambda>n. case name n of None \<Rightarrow> [] | Some s \<Rightarrow> [s]) (leaves c))"

definition spec_outgroup_child :: "tree \<Rightarrow> nat" where
  "spec_outgroup_child src =
     (let c1 = children src ! 0; c2 = children src ! 1 in
      if length (leaves c1) < length (leaves c2) then 0
      else if length (leaves c2) < length (leaves c1) then 1
      else if Min (set (clade_names c1)) \<le> Min (set (clade_names c2)) then 0 else 1)"

lemma first_min_two:
  "min_key [(a, x), (b, y)] = Some (if y < x then b else a)"
  by (simp add: min_key_def)

text \<open>
  C4 (as amended).  When neither basal clade of the source is a tip itself, the outgroup
  of \<^verbatim>\<open>restore_rooting\<close> is the basal clade with strictly fewer tips, and on equal
  counts it is the first child of the source's apex, whatever the tip names are.
\<close>

theorem outgroup_child_fewer_or_first:
  assumes two: "length (children src) = 2"
    and c0: "children (children src ! 0) \<noteq> []"
    and c1: "children (children src ! 1) \<noteq> []"
  shows "outgroup_child src =
           Some (if length (leaves (children src ! 1)) < length (leaves (children src ! 0))
                 then 1 else 0) \<and>
         outgroup_names src =
           remdups (map name (leaves (children src !
              (if length (leaves (children src ! 1)) < length (leaves (children src ! 0))
               then 1 else 0))))"
proof -
  have idx: "[0..<length (children src)] = [0, 1]" using two by (simp add: upt_rec)
  have t0: "tips (children src ! 0) = leaves (children src ! 0)" using tips_leaves[OF c0] .
  have t1: "tips (children src ! 1) = leaves (children src ! 1)" using tips_leaves[OF c1] .
  have oc: "outgroup_child src =
     Some (if length (leaves (children src ! 1)) < length (leaves (children src ! 0))
           then 1 else 0)"
    using idx t0 t1 by (simp add: outgroup_child_def first_min_two count_tips_def)
  show ?thesis
  proof (cases "length (leaves (children src ! 1)) < length (leaves (children src ! 0))")
    case True
    then show ?thesis using oc t1 by (simp add: outgroup_names_def)
  next
    case False
    then show ?thesis using oc t0 by (simp add: outgroup_names_def)
  qed
qed

theorem outgroup_child_fewer_or_first_witness:
  "length (children golden) = 2 \<and> outgroup_child golden = Some 1 \<and>
   length (leaves (children golden ! 1)) < length (leaves (children golden ! 0)) \<and>
   length (children tie_src) = 2 \<and> outgroup_child tie_src = Some 0 \<and>
   length (leaves (children tie_src ! 1)) = length (leaves (children tie_src ! 0)) \<and>
   outgroup_names golden = [Some ''h'', Some ''i''] \<and>
   outgroup_names tie_src = [Some ''c'', Some ''d'']"
proof -
  have a: "length (children golden) = 2" by (simp add: golden_def)
  have a0: "children (children golden ! 0) \<noteq> []" by (simp add: golden_def)
  have a1: "children (children golden ! 1) \<noteq> []" by (simp add: golden_def)
  have b: "length (children tie_src) = 2" by (simp add: tie_src_def)
  have b0: "children (children tie_src ! 0) \<noteq> []" by (simp add: tie_src_def)
  have b1: "children (children tie_src ! 1) \<noteq> []" by (simp add: tie_src_def)
  have c: "length (leaves (children golden ! 1)) < length (leaves (children golden ! 0))"
    by (simp add: golden_def tip_def)
  have d: "length (leaves (children tie_src ! 1)) = length (leaves (children tie_src ! 0))"
    by (simp add: tie_src_def tip_def)
  have e: "outgroup_names golden = [Some ''h'', Some ''i'']" by code_simp
  have f: "outgroup_names tie_src = [Some ''c'', Some ''d'']" by code_simp
  show ?thesis
    using a b c d e f outgroup_child_fewer_or_first[OF a a0 a1]
      outgroup_child_fewer_or_first[OF b b0 b1]
    by simp
qed

text \<open>
  As first stated the claim breaks ties by the smallest tip name.  With two tips on either
  side the code takes the first clade, \<open>{c, d}\<close>, where the stated rule takes \<open>{a, b}\<close>.
\<close>

theorem outgroup_tie_counterexample:
  "length (children tie_src) = 2 \<and>
   count_tips (children tie_src ! 0) = count_tips (children tie_src ! 1) \<and>
   clade_names (children tie_src ! 0) = [''c'', ''d''] \<and>
   clade_names (children tie_src ! 1) = [''a'', ''b''] \<and>
   spec_outgroup_child tie_src = 1 \<and>
   outgroup_child tie_src = Some 0 \<and>
   outgroup_names tie_src = [Some ''c'', Some ''d'']"
  by code_simp










text \<open>
  A basal clade of the source that is a single tip has no tips of its own in the sense of
  \<^verbatim>\<open>tips()\<close>: it is chosen as the outgroup with an empty set of names, and the search for
  the common ancestor of no names raises.
\<close>

lemma restore_rooting_single_tip_clade:
  "length (children single_src) = 2 \<and> length (children single_trg) \<noteq> 2 \<and>
   set (map name (tips single_src)) = set (map name (tips single_trg)) \<and>
   outgroup_names single_src = [] \<and>
   restore_rooting single_src single_trg = Inl NoTipsFound"
  by code_simp

text \<open>
  C7.  At an apex with exactly two children the directional copy fails with
  \<^verbatim>\<open>Cannot walk from root of an rooted tree\<close> whatever the source node is: a child of
  the apex, another node, or \<^verbatim>\<open>None\<close>.  The test comes before the classification of
  the move, so it is never the not-neighbours error.
\<close>

theorem walk_copy_rooted_apex:
  "length (children t) = 2 \<Longrightarrow> walk_copy t [] src = Inl CannotWalkFromRootOfRootedTree"
  by (subst walk_copy.simps) (simp add: rooted_of_def position_of_def)

theorem walk_copy_rooted_apex_witness:
  "length (children golden) = 2 \<and>
   walk_copy golden [] (Some [0]) = Inl CannotWalkFromRootOfRootedTree \<and>
   walk_copy golden [] (Some [0, 0]) = Inl CannotWalkFromRootOfRootedTree \<and>
   walk_copy golden [] None = Inl CannotWalkFromRootOfRootedTree"
proof -
  have two: "length (children golden) = 2" by (simp add: golden_def)
  show ?thesis
    using two walk_copy_rooted_apex[OF two, of "Some [0]"]
      walk_copy_rooted_apex[OF two, of "Some [0, 0]"]
      walk_copy_rooted_apex[OF two, of None]
    by simp
qed

text \<open>
  The labels the source offers: the non-empty names of its nodes with children, in the
  order the first loop reads them.
\<close>

definition node_labels :: "tree list \<Rightarrow> string list" where
  "node_labels nodes =
     concat (map (\<lambda>node. case name node of
                            None \<Rightarrow> []
                          | Some label \<Rightarrow> if label = [] then [] else [label]) nodes)"

definition src_labels :: "tree \<Rightarrow> string list" where
  "src_labels src = node_labels (non_tips src)"

lemma node_labels_Cons:
  "node_labels (node # rest) =
     (case name node of None \<Rightarrow> [] | Some label \<Rightarrow> if label = [] then [] else [label])
     @ node_labels rest"
  by (simp add: node_labels_def)

lemma read_labels_ok:
  "distinct (map fst acc @ node_labels nodes) \<Longrightarrow>
   \<exists>l2t. read_labels nodes acc = Inr l2t \<and> map fst l2t = map fst acc @ node_labels nodes"
proof (induction nodes arbitrary: acc)
  case Nil
  then show ?case by (simp add: node_labels_def)
next
  case (Cons node rest)
  show ?case
  proof (cases "name node")
    case None
    then show ?thesis using Cons.IH[of acc] Cons.prems by (simp add: node_labels_Cons)
  next
    case (Some label)
    show ?thesis
    proof (cases "label = []")
      case True
      then show ?thesis using Some Cons.IH[of acc] Cons.prems by (simp add: node_labels_Cons)
    next
      case False
      from Cons.prems Some False have nin: "label \<notin> fst ` set acc"
        and d: "distinct (map fst (acc @ [(label, taxa node)]) @ node_labels rest)"
        by (auto simp: node_labels_Cons)
      from Cons.IH[OF d] obtain l2t where
        "read_labels rest (acc @ [(label, taxa node)]) = Inr l2t"
        "map fst l2t = map fst (acc @ [(label, taxa node)]) @ node_labels rest" by auto
      then show ?thesis using Some False nin by (simp add: node_labels_Cons)
    qed
  qed
qed

lemma matching_label_in:
  "matching_label l2t tx = Some label \<Longrightarrow> label \<in> fst ` set l2t"
proof -
  assume a: "matching_label l2t tx = Some label"
  then obtain s rest where f: "filter (\<lambda>(label, s). s = tx) l2t = (label, s) # rest"
    by (auto simp: matching_label_def split: list.splits)
  then have "(label, s) \<in> set (filter (\<lambda>(label, s). s = tx) l2t)" by simp
  then show ?thesis by force
qed

lemma node_at_mark_labels:
  "node_at (mark_labels l2t t) p =
     (case node_at t p of None \<Rightarrow> None | Some n \<Rightarrow> Some (mark_labels l2t n))"
proof (induction p arbitrary: t)
  case Nil
  then show ?case by simp
next
  case (Cons i p)
  obtain n l cs where t: "t = Node n l cs" by (cases t)
  show ?case using Cons.IH[of "cs ! i"] t by (cases "cs = []") auto
qed

lemma mark_labels_node:
  "blen (mark_labels l2t n) = blen n \<and>
   length (children (mark_labels l2t n)) = length (children n) \<and>
   (name (mark_labels l2t n) = name n \<or>
    (children n \<noteq> [] \<and> (\<exists>label \<in> fst ` set l2t. name (mark_labels l2t n) = Some label)))"
proof (cases n)
  case (Node nm l cs)
  show ?thesis
  proof (cases "matching_label l2t (taxa (Node nm l cs))")
    case None
    then show ?thesis using Node by simp
  next
    case (Some label)
    from matching_label_in[OF this] show ?thesis using Node Some by auto
  qed
qed

text \<open>
  C8.  When no label occurs twice among the source's nodes with children,
  \<^verbatim>\<open>restore_node_labels\<close> succeeds for every target, with or without a node whose tip
  names equal a labelled clade's: a label without such a node is simply not used.  The
  result has the shape, lengths and child counts of the target, and a node whose name
  differs from the target's is a node with children that carries a label of the source.
\<close>

theorem restore_node_labels_succeeds:
  assumes "distinct (src_labels src)"
  shows "\<exists>res. restore_node_labels src trg = Inr res \<and>
           (\<forall>p. (node_at res p = None) = (node_at trg p = None)) \<and>
           (\<forall>p n n'. node_at res p = Some n \<and> node_at trg p = Some n' \<longrightarrow>
                blen n = blen n' \<and> length (children n) = length (children n') \<and>
                (name n = name n' \<or>
                 (children n' \<noteq> [] \<and> (\<exists>label \<in> set (src_labels src). name n = Some label))))"
proof -
  from assms have "distinct (map fst [] @ node_labels (non_tips src))"
    by (simp add: src_labels_def)
  from read_labels_ok[OF this] obtain l2t
    where l2t: "read_labels (non_tips src) [] = Inr l2t" "map fst l2t = src_labels src"
    by (auto simp: src_labels_def)
  have fs: "fst ` set l2t = set (src_labels src)"
    using l2t(2) by (metis list.set_map)
  have res: "restore_node_labels src trg = Inr (mark_labels l2t trg)"
    using l2t(1) by (simp add: restore_node_labels_def copy_def)
  have a: "\<forall>p. (node_at (mark_labels l2t trg) p = None) = (node_at trg p = None)"
    by (simp add: node_at_mark_labels split: option.splits)
  have b: "\<forall>p n n'. node_at (mark_labels l2t trg) p = Some n \<and> node_at trg p = Some n' \<longrightarrow>
                blen n = blen n' \<and> length (children n) = length (children n') \<and>
                (name n = name n' \<or>
                 (children n' \<noteq> [] \<and> (\<exists>label \<in> set (src_labels src). name n = Some label)))"
  proof (intro allI impI)
    fix p n n'
    assume h: "node_at (mark_labels l2t trg) p = Some n \<and> node_at trg p = Some n'"
    then have n: "n = mark_labels l2t n'" by (auto simp: node_at_mark_labels)
    show "blen n = blen n' \<and> length (children n) = length (children n') \<and>
                (name n = name n' \<or>
                 (children n' \<noteq> [] \<and> (\<exists>label \<in> set (src_labels src). name n = Some label)))"
      using mark_labels_node[of l2t n'] n fs by simp
  qed
  show ?thesis using res a b by blast
qed

theorem restore_node_labels_succeeds_witness:
  "distinct (src_labels golden) \<and>
   restore_node_labels golden unrooted3 =
     Inr (Node (Some ''j'') None
            [Node (Some ''h'') (Some (4/10))
               [Node (Some ''c'') (Some (3/10)) [tip ''a'' (6/10), tip ''b'' (5/10)],
                tip ''c'' (8/10)],
             Node (Some ''f'') (Some (5/10)) [tip ''d'' (4/10), tip ''e'' (5/10)],
             tip ''f'' (9/10)]) \<and>
   (\<exists>res. restore_node_labels golden unrooted3 = Inr res \<and>
      name_at res [0] = name_at unrooted3 [0] \<and>
      name_at res [1] \<noteq> name_at unrooted3 [1] \<and>
      name_at res [1] \<in> Some ` set (src_labels golden))"
proof -
  have d: "distinct (src_labels golden)" by code_simp
  have e: "restore_node_labels golden unrooted3 =
     Inr (Node (Some ''j'') None
            [Node (Some ''h'') (Some (4/10))
               [Node (Some ''c'') (Some (3/10)) [tip ''a'' (6/10), tip ''b'' (5/10)],
                tip ''c'' (8/10)],
             Node (Some ''f'') (Some (5/10)) [tip ''d'' (4/10), tip ''e'' (5/10)],
             tip ''f'' (9/10)])" by code_simp
  have l: "src_labels golden = [''c'', ''f'', ''g'', ''j'', ''k'']" by code_simp
  have ex: "\<exists>res. restore_node_labels golden unrooted3 = Inr res \<and>
      name_at res [0] = name_at unrooted3 [0] \<and>
      name_at res [1] \<noteq> name_at unrooted3 [1] \<and>
      name_at res [1] \<in> Some ` set (src_labels golden)"
    unfolding e l by (simp add: name_at_def unrooted3_def)
  show ?thesis using restore_node_labels_succeeds[OF d, of unrooted3] d e ex by simp
qed

text \<open>
  C9.  The data model asks that the labels of the nodes with children be unique among
  these nodes.  For a source and a target that meet this, every successful run of
  \<^verbatim>\<open>restore_node_order\<close> is a fixed point: running it again on the source and the
  returned tree succeeds and returns that same tree.  Tips may share a name with a node
  with children, and nodes of the target may be unnamed.
\<close>

theorem restore_node_order_idempotent:
  assumes ds: "distinct (inner_labels src)" and dt: "distinct (inner_labels trg)"
    and r: "restore_node_order src trg = Inr r"
  shows "restore_node_order src r = Inr r"
proof (cases "children src = []")
  case True
  then have "preorder src = [src]" by (cases src) simp
  then show ?thesis using r True by (simp add: restore_node_order_def copy_def)
next
  case False
  obtain a b cs where s: "src = Node a b cs" by (cases src)
  from r have run: "reorder_all (preorder src) trg = Inr r"
    by (simp add: restore_node_order_def copy_def)
  then obtain t1 where "reorder_node trg src = Inr t1"
    using s False by (auto split: sum.splits)
  then obtain L p where L: "name src = Some L" and f: "find trg (Some L) = Inr p"
    by (cases "name src") (auto simp: reorder_node_def split: if_splits sum.splits)
  from find_Some_node[OF f] obtain n where n: "node_at trg p = Some n" "name n = Some L" by auto
  have nm: "name n = name src" using n(2) L by simp
  from f have "distinct (map fst (tip_cache trg))"
    by (auto simp: find_def create_caches_def split: if_splits)
  then have dm: "distinct (marks_of trg)" using dt by (rule distinct_marks_of)
  from pass_settles[OF ds dm n(1) nm run] obtain n' where
    n': "r = replace_at trg p n'" "name n' = name src" "settled src n'"
        "distinct (marks_of n')" "set (marks_of n') \<subseteq> set (marks_of n)"
        "\<forall>L \<in> set (inner_labels src). (True, L) \<notin> set (marks_of r)" by blast
  have dr: "distinct (marks_of r)"
    using marks_of_replace_at[OF n(1) dm n'(4,5)] n'(1) by simp
  have "node_at trg p \<noteq> None" using n(1) by simp
  then have atr: "node_at r p = Some n'" using node_at_replace_at n'(1) by simp
  from settled_fixed[OF dr atr n'(2,3,6)] show ?thesis
    by (simp add: restore_node_order_def copy_def)
qed

theorem restore_node_order_idempotent_witness:
  "distinct (inner_labels golden) \<and> distinct (inner_labels extra_trg) \<and>
   restore_node_order golden extra_trg =
     Inr (Node (Some ''k'') None
            [Node (Some ''g'') (Some 1)
               [Node (Some ''c'') (Some 1) [tip ''a'' 1, tip ''b'' 1],
                Node (Some ''f'') (Some 1) [tip ''d'' 1, tip ''e'' 1]],
             Node (Some ''j'') (Some 1) [tip ''h'' 1, tip ''i'' 1]]) \<and>
   restore_node_order golden
     (Node (Some ''k'') None
            [Node (Some ''g'') (Some 1)
               [Node (Some ''c'') (Some 1) [tip ''a'' 1, tip ''b'' 1],
                Node (Some ''f'') (Some 1) [tip ''d'' 1, tip ''e'' 1]],
             Node (Some ''j'') (Some 1) [tip ''h'' 1, tip ''i'' 1]]) =
     Inr (Node (Some ''k'') None
            [Node (Some ''g'') (Some 1)
               [Node (Some ''c'') (Some 1) [tip ''a'' 1, tip ''b'' 1],
                Node (Some ''f'') (Some 1) [tip ''d'' 1, tip ''e'' 1]],
             Node (Some ''j'') (Some 1) [tip ''h'' 1, tip ''i'' 1]]) \<and>
   inner_labels clash_src = [''a'', ''x'', ''r''] \<and>
   inner_labels clash_trg = [''a'', ''x'', ''r''] \<and>
   restore_node_order clash_src clash_trg =
     Inr (Node (Some ''r'') None
            [Node (Some ''x'') (Some 1) [Node (Some ''a'') (Some 1) [tip ''b'' 1]]]) \<and>
   restore_node_order clash_src
     (Node (Some ''r'') None
            [Node (Some ''x'') (Some 1) [Node (Some ''a'') (Some 1) [tip ''b'' 1]]]) =
     Inr (Node (Some ''r'') None
            [Node (Some ''x'') (Some 1) [Node (Some ''a'') (Some 1) [tip ''b'' 1]]])"
proof -
  have a: "distinct (inner_labels golden)" by code_simp
  have b: "distinct (inner_labels extra_trg)" by code_simp
  have c: "restore_node_order golden extra_trg =
     Inr (Node (Some ''k'') None
            [Node (Some ''g'') (Some 1)
               [Node (Some ''c'') (Some 1) [tip ''a'' 1, tip ''b'' 1],
                Node (Some ''f'') (Some 1) [tip ''d'' 1, tip ''e'' 1]],
             Node (Some ''j'') (Some 1) [tip ''h'' 1, tip ''i'' 1]])" by code_simp
  have d: "inner_labels clash_src = [''a'', ''x'', ''r'']" by code_simp
  have e: "inner_labels clash_trg = [''a'', ''x'', ''r'']" by code_simp
  have d': "distinct (inner_labels clash_src)" unfolding d by simp
  have e': "distinct (inner_labels clash_trg)" unfolding e by simp
  have f: "restore_node_order clash_src clash_trg =
     Inr (Node (Some ''r'') None
            [Node (Some ''x'') (Some 1) [Node (Some ''a'') (Some 1) [tip ''b'' 1]]])" by code_simp
  show ?thesis
    using a b c d e f restore_node_order_idempotent[OF a b c]
      restore_node_order_idempotent[OF d' e' f] by simp
qed

text \<open>
  The uniqueness of the target's labels is needed.  In the target below, which is outside
  the data model, the labels x and w occur twice.  In the first run the label x is found
  at the inner node x, which the round for w then removes; the second run finds x at the
  outer node and removes the subtree w below it, so the two runs both succeed and return
  different trees.
\<close>

lemma restore_node_order_repeated_label:
  "distinct (inner_labels dup_src) \<and> \<not> distinct (inner_labels dup_trg) \<and>
   restore_node_order dup_src dup_trg =
     Inr (Node (Some ''r'') None
            [Node (Some ''x'') (Some 1)
               [Node (Some ''w'') (Some 1) [tip ''v'' 1],
                Node (Some ''a'') (Some 1) [tip ''t'' 1]],
             Node (Some ''w'') (Some 1) [Node (Some ''v'') (Some 1) [tip ''u'' 1]]]) \<and>
   restore_node_order dup_src
     (Node (Some ''r'') None
            [Node (Some ''x'') (Some 1)
               [Node (Some ''w'') (Some 1) [tip ''v'' 1],
                Node (Some ''a'') (Some 1) [tip ''t'' 1]],
             Node (Some ''w'') (Some 1) [Node (Some ''v'') (Some 1) [tip ''u'' 1]]]) =
     Inr (Node (Some ''r'') None
            [Node (Some ''x'') (Some 1) [Node (Some ''a'') (Some 1) [tip ''t'' 1]],
             Node (Some ''w'') (Some 1) [Node (Some ''v'') (Some 1) [tip ''u'' 1]]])"
  by code_simp
text \<open>
  C10.  One round of \<^verbatim>\<open>restore_node_order\<close>, for a labelled source node whose label
  \<^verbatim>\<open>find\<close> locates at the node \<open>ntrg\<close> of the copy.  When every name of the source
  node's children is the name of a child of \<open>ntrg\<close>, the round succeeds, also when
  \<open>ntrg\<close> has children with other names: the new child list consists of children of
  \<open>ntrg\<close>, carries exactly the source's names, and holds no child with another name, so
  such a child leaves the tree with everything below it, and nothing is reported.  The
  round raises the child-mismatch error exactly in the converse case, when some source
  child's name is the name of no child of \<open>ntrg\<close>.
\<close>

theorem reorder_node_drops_extra_children:
  assumes "name nsrc = Some s" "s \<noteq> []" "find res (Some s) = Inr p" "node_at res p = Some ntrg"
  shows "(set (child_names nsrc) \<subseteq> set (child_names ntrg) \<longrightarrow>
            (\<exists>res' new.
               reorder_node res nsrc = Inr res' \<and>
               node_at res' p = Some (Node (name ntrg) (blen ntrg) new) \<and>
               set new \<subseteq> set (children ntrg) \<and>
               set (map name new) = set (child_names nsrc) \<and>
               (\<forall>c \<in> set (children ntrg). name c \<notin> set (child_names nsrc) \<longrightarrow> c \<notin> set new))) \<and>
         (reorder_node res nsrc = Inl ChildMismatch \<longleftrightarrow>
            \<not> set (child_names nsrc) \<subseteq> set (child_names ntrg))"
proof -
  let ?nms = "map name (children nsrc)"
  have step: "reorder_node res nsrc =
      (case append_children ntrg ?nms [] of
         Inl e \<Rightarrow> Inl e
       | Inr order \<Rightarrow> Inr (set_children res p (map ((!) (children ntrg)) order)))"
    using assms by (simp add: reorder_node_def)
  show ?thesis
  proof (cases "set (child_names nsrc) \<subseteq> set (child_names ntrg)")
    case True
    then have sub: "set ?nms \<subseteq> set (child_names ntrg)" by (simp add: child_names_def)
    from append_children_ok[OF sub, of "[]"] obtain order where
      o: "append_children ntrg ?nms [] = Inr order" "distinct order"
         "set order = {i. \<exists>nm \<in> set ?nms. name2child ntrg nm = Some i}" by auto
    let ?new = "map ((!) (children ntrg)) order"
    have r: "reorder_node res nsrc = Inr (set_children res p ?new)" using step o(1) by simp
    have lt: "\<forall>i \<in> set order. i < length (children ntrg) \<and> name (children ntrg ! i) \<in> set ?nms"
      using o(3) name2child_Some by auto
    have a: "set ?new \<subseteq> set (children ntrg)" using lt by auto
    have b1: "set (map name ?new) \<subseteq> set ?nms" using lt by auto
    have b2: "set ?nms \<subseteq> set (map name ?new)"
    proof
      fix nm assume nm: "nm \<in> set ?nms"
      then have "nm \<in> set (child_names ntrg)" using sub by auto
      then obtain i where i: "name2child ntrg nm = Some i"
        using name2child_None[of ntrg nm] by (cases "name2child ntrg nm") auto
      then have "i \<in> set order" using o(3) nm by auto
      moreover have "name (children ntrg ! i) = nm" using name2child_Some[OF i] by simp
      ultimately show "nm \<in> set (map name ?new)" by force
    qed
    have b: "set (map name ?new) = set (child_names nsrc)"
      using b1 b2 by (auto simp: child_names_def)
    have c: "\<forall>c \<in> set (children ntrg). name c \<notin> set (child_names nsrc) \<longrightarrow> c \<notin> set ?new"
      using b by force
    have "reorder_node res nsrc \<noteq> Inl ChildMismatch" using r by simp
    then show ?thesis
      using True r node_at_set_children[OF assms(4), of ?new] a b c by blast
  next
    case False
    then have "\<not> set ?nms \<subseteq> set (child_names ntrg)" by (simp add: child_names_def)
    from append_children_fail[OF this, of "[]"] have "reorder_node res nsrc = Inl ChildMismatch"
      using step by simp
    then show ?thesis using False by simp
  qed
qed

theorem reorder_node_drops_extra_children_witness:
  "name (children golden ! 1) = Some ''j'' \<and> find extra_trg (Some ''j'') = Inr [0] \<and>
   node_at extra_trg [0] = Some (children extra_trg ! 0) \<and>
   child_names (children golden ! 1) = [Some ''h'', Some ''i''] \<and>
   child_names (children extra_trg ! 0) = [Some ''q'', Some ''i'', Some ''h''] \<and>
   reorder_node extra_trg (children golden ! 1) \<noteq> Inl ChildMismatch \<and>
   (\<exists>res' new.
      reorder_node extra_trg (children golden ! 1) = Inr res' \<and>
      node_at res' [0] = Some (Node (Some ''j'') (Some 1) new) \<and>
      tip ''q'' 2 \<notin> set new) \<and>
   restore_node_order golden extra_trg =
     Inr (Node (Some ''k'') None
            [Node (Some ''g'') (Some 1)
               [Node (Some ''c'') (Some 1) [tip ''a'' 1, tip ''b'' 1],
                Node (Some ''f'') (Some 1) [tip ''d'' 1, tip ''e'' 1]],
             Node (Some ''j'') (Some 1) [tip ''h'' 1, tip ''i'' 1]]) \<and>
   restore_node_order extra_trg golden = Inl ChildMismatch"
proof -
  let ?nsrc = "children golden ! 1"
  let ?ntrg = "children extra_trg ! 0"
  have a: "name ?nsrc = Some ''j''" by (simp add: golden_def)
  have b: "''j'' \<noteq> []" by simp
  have c: "find extra_trg (Some ''j'') = Inr [0]" by code_simp
  have d: "node_at extra_trg [0] = Some ?ntrg" by (simp add: extra_trg_def)
  have ns: "child_names ?nsrc = [Some ''h'', Some ''i'']"
    by (simp add: golden_def child_names_def tip_def)
  have nt: "child_names ?ntrg = [Some ''q'', Some ''i'', Some ''h'']"
    by (simp add: extra_trg_def child_names_def tip_def)
  have sub: "set (child_names ?nsrc) \<subseteq> set (child_names ?ntrg)" unfolding ns nt by simp
  have nm: "name ?ntrg = Some ''j''" "blen ?ntrg = Some 1" by (simp_all add: extra_trg_def)
  have q: "tip ''q'' 2 \<in> set (children ?ntrg)" "name (tip ''q'' 2) \<notin> set (child_names ?nsrc)"
    unfolding ns by (simp_all add: extra_trg_def tip_def)
  from reorder_node_drops_extra_children[OF a b c d] sub
  obtain res' new where r: "reorder_node extra_trg ?nsrc = Inr res'"
      "node_at res' [0] = Some (Node (name ?ntrg) (blen ?ntrg) new)"
      "\<forall>c \<in> set (children ?ntrg). name c \<notin> set (child_names ?nsrc) \<longrightarrow> c \<notin> set new"
    by blast
  from r(3) q have "tip ''q'' 2 \<notin> set new" by blast
  then have ex: "\<exists>res' new.
      reorder_node extra_trg ?nsrc = Inr res' \<and>
      node_at res' [0] = Some (Node (Some ''j'') (Some 1) new) \<and>
      tip ''q'' 2 \<notin> set new" using r(1,2) nm by auto
  have ne: "reorder_node extra_trg ?nsrc \<noteq> Inl ChildMismatch" using r(1) by simp
  have full: "restore_node_order golden extra_trg =
     Inr (Node (Some ''k'') None
            [Node (Some ''g'') (Some 1)
               [Node (Some ''c'') (Some 1) [tip ''a'' 1, tip ''b'' 1],
                Node (Some ''f'') (Some 1) [tip ''d'' 1, tip ''e'' 1]],
             Node (Some ''j'') (Some 1) [tip ''h'' 1, tip ''i'' 1]])" by code_simp
  have conv: "restore_node_order extra_trg golden = Inl ChildMismatch" by code_simp
  show ?thesis using a c d ns nt ne ex full conv by simp
qed

end
